theory Spec2Isabelle
  imports Main "HOL-Library.Word"
begin

unbundle bit_operations_syntax

section \<open>The cc26xx flash driver (src/flash/nor/cc26xx.c)\<close>

text \<open>
  A shallow embedding of the driver. The C functions become HOL functions of the same
  name. The target access layer (reads and writes of target memory, the clock, the
  working area allocator, start and stop of an algorithm) is outside the driver: its
  answers come from an environment, a function from the history of calls made so far to
  the answer of the latest call, so a theorem for every environment speaks of every
  behaviour of the target. Every call is appended to a trace.
\<close>

type_synonym u32 = "32 word"
type_synonym u8 = "8 word"

subsection \<open>Return codes and target state\<close>

text \<open>
  The return codes of OpenOCD that the driver names, and \<open>ERROR_SHIM n\<close> for any other
  code that a call into the target layer hands back.
\<close>

datatype retval =
    ERROR_OK
  | ERROR_FAIL
  | ERROR_TARGET_NOT_HALTED
  | ERROR_TARGET_RESOURCE_NOT_AVAILABLE
  | ERROR_SHIM int

datatype target_state =
    TARGET_UNKNOWN
  | TARGET_RUNNING
  | TARGET_HALTED
  | TARGET_RESET
  | TARGET_DEBUG_RUNNING

subsection \<open>The constants of cc26xx.h\<close>

text \<open>
  The header cc26xx.h is not part of the sources at hand, so its constants are a
  parameter \<open>h\<close> of every function that uses one. The addresses and the helper image of
  one device family are an \<open>algo_layout\<close>.
\<close>

record algo_layout =
  ALGO_CODE :: "u8 list"
  WORKING_SIZE :: u32
  ALGO_ENTRY :: u32
  ALGO_BUFFER_0 :: u32
  ALGO_BUFFER_1 :: u32
  ALGO_PARAMS_0 :: u32
  ALGO_PARAMS_1 :: u32
  ALGO_STATUS_0 :: u32
  ALGO_STATUS_1 :: u32

record cc26xx_ids =
  ICEPICK_ID_MASK :: u32
  ICEPICK_REV_MASK :: u32
  CC26X0_ICEPICK_ID :: u32
  CC26X1_ICEPICK_ID :: u32
  CC13X0_ICEPICK_ID :: u32
  CC13X2_CC26X2_ICEPICK_ID :: u32
  USER_ID_CC13_MASK :: u32
  CC26XX_NO_TYPE :: u32
  CC26X0_TYPE :: u32
  CC26X1_TYPE :: u32
  CC13X0_TYPE :: u32
  CC13X2_TYPE :: u32
  CC26X2_TYPE :: u32
  CC26XX_CHAMELEON_SECTOR_LENGTH :: u32
  CC26XX_AGAMA_SECTOR_LENGTH :: u32

record cc26xx_h = cc26xx_ids +
  CC26XX_MAX_SECTOR_COUNT :: nat
  CC26XX_BUFFER_FULL :: u32
  CC26XX_BUFFER_EMPTY :: u32
  CC26XX_CMD_ERASE_ALL :: u32
  CC26XX_CMD_PROGRAM :: u32
  CC26XX_CMD_ERASE_AND_PROGRAM :: u32
  FCFG1_ICEPICK_ID :: u32
  FCFG1_USER_ID :: u32
  CC26XX_SRAM_SIZE_INFO :: u32
  CC26XX_FLASH_SIZE_INFO :: u32
  CC26XX_ALGO_BASE_ADDRESS :: u32
  CC26XX_FLASH_BASE_ADDR :: u32
  CC26XX_CHAMELEON :: algo_layout
  CC26XX_AGAMA :: algo_layout

definition FLASH_TIMEOUT :: int where
  "FLASH_TIMEOUT = 8000"

subsection \<open>Device identity\<close>

text \<open>
  The case labels \<open>CC26X0_ICEPICK_ID\<close>, \<open>CC26X1_ICEPICK_ID\<close> and
  \<open>CC13X0_ICEPICK_ID\<close>, which share one branch in three of the switches: the
  Chameleon family. Every other identity, known or not, takes the \<open>default\<close> branch.
\<close>

definition chameleon_id :: "cc26xx_h \<Rightarrow> u32 \<Rightarrow> bool" where
  "chameleon_id h icepick \<longleftrightarrow>
     icepick AND ICEPICK_ID_MASK h = CC26X0_ICEPICK_ID h \<or>
     icepick AND ICEPICK_ID_MASK h = CC26X1_ICEPICK_ID h \<or>
     icepick AND ICEPICK_ID_MASK h = CC13X0_ICEPICK_ID h"

definition cc26xx_device_type :: "cc26xx_h \<Rightarrow> u32 \<Rightarrow> u32 \<Rightarrow> u32" where
  "cc26xx_device_type h icepick_id user_id =
     (let id = icepick_id AND ICEPICK_ID_MASK h in
      if id = CC26X0_ICEPICK_ID h then CC26X0_TYPE h
      else if id = CC26X1_ICEPICK_ID h then CC26X1_TYPE h
      else if id = CC13X0_ICEPICK_ID h then CC13X0_TYPE h
      else if (user_id AND USER_ID_CC13_MASK h) \<noteq> 0 then CC13X2_TYPE h
      else CC26X2_TYPE h)"

definition cc26xx_sram_size :: "cc26xx_h \<Rightarrow> u32 \<Rightarrow> u32 \<Rightarrow> u32" where
  "cc26xx_sram_size h icepick_id size_code =
     (if chameleon_id h icepick_id then
        (let rev = icepick_id AND ICEPICK_REV_MASK h in
         if rev = 0x00000000 \<or> rev = 0x10000000 then
           (if size_code = 0 then 0x800
            else if size_code = 1 then 0x1000
            else if size_code = 2 then 0x2000
            else 0x4000)
         else
           (if size_code = 0 then 0x1000
            else if size_code = 1 then 0x2800
            else if size_code = 2 then 0x4000
            else 0x5000))
      else
        (if size_code = 0 then 0x8000
         else if size_code = 1 then 0xc000
         else if size_code = 2 then 0x10000
         else 0x14000))"

definition cc26xx_sector_length :: "cc26xx_h \<Rightarrow> u32 \<Rightarrow> u32" where
  "cc26xx_sector_length h icepick_id =
     (if chameleon_id h icepick_id
      then CC26XX_CHAMELEON_SECTOR_LENGTH h
      else CC26XX_AGAMA_SECTOR_LENGTH h)"

subsection \<open>The target access layer\<close>

text \<open>
  What a call writes into target memory: the helper image, one word, a parameter block,
  or a block of the data to program.
\<close>

record cc26xx_algo_params =
  p_address :: u32
  p_length :: u32
  p_command :: u32
  p_status :: u32
  p_buffer :: u32

datatype payload =
    Code "u8 list"
  | Word32 u32
  | Params cc26xx_algo_params
  | Data "u8 list"

text \<open>
  The calls the driver makes. \<open>Call_wait_algo_done\<close> and \<open>Call_quit\<close> are not calls
  into the target layer: they mark the entry into the driver's own
  \<open>cc26xx_wait_algo_done\<close> and \<open>cc26xx_quit\<close>, so that these calls can be counted
  and ordered in a trace.
\<close>

datatype event =
    Timeval_ms
  | Keep_alive
  | Log_error string
  | Target_read_buffer u32
  | Target_write_buffer u32 payload
  | Target_read_u32 u32
  | Target_alloc_working_area u32
  | Target_free_working_area "u32 option"
  | Target_start_algorithm u32
  | Target_halt
  | Target_wait_algorithm int
  | Malloc nat
  | Call_wait_algo_done u32
  | Call_quit

record reply =
  r_retval :: retval
  r_word :: u32
  r_ms :: int
  r_null :: bool

type_synonym env = "event list \<Rightarrow> reply"

record world =
  state :: target_state
  trace :: "event list"

definition log_event :: "event \<Rightarrow> world \<Rightarrow> world" where
  "log_event e w = w\<lparr>trace := trace w @ [e]\<rparr>"

definition timeval_ms :: "env \<Rightarrow> world \<Rightarrow> int \<times> world" where
  "timeval_ms env w = (let w' = log_event Timeval_ms w in (r_ms (env (trace w')), w'))"

definition keep_alive :: "world \<Rightarrow> world" where
  "keep_alive w = log_event Keep_alive w"

definition LOG_ERROR :: "string \<Rightarrow> world \<Rightarrow> world" where
  "LOG_ERROR msg w = log_event (Log_error msg) w"

definition target_read_buffer :: "env \<Rightarrow> u32 \<Rightarrow> world \<Rightarrow> retval \<times> u32 \<times> world" where
  "target_read_buffer env address w =
     (let w' = log_event (Target_read_buffer address) w; r = env (trace w')
      in (r_retval r, r_word r, w'))"

definition target_read_u32 :: "env \<Rightarrow> u32 \<Rightarrow> world \<Rightarrow> retval \<times> u32 \<times> world" where
  "target_read_u32 env address w =
     (let w' = log_event (Target_read_u32 address) w; r = env (trace w')
      in (r_retval r, r_word r, w'))"

definition target_write_buffer :: "env \<Rightarrow> u32 \<Rightarrow> payload \<Rightarrow> world \<Rightarrow> retval \<times> world" where
  "target_write_buffer env address p w =
     (let w' = log_event (Target_write_buffer address p) w
      in (r_retval (env (trace w')), w'))"

definition target_alloc_working_area :: "env \<Rightarrow> u32 \<Rightarrow> world \<Rightarrow> retval \<times> u32 \<times> world" where
  "target_alloc_working_area env sz w =
     (let w' = log_event (Target_alloc_working_area sz) w; r = env (trace w')
      in (r_retval r, r_word r, w'))"

definition target_free_working_area :: "u32 option \<Rightarrow> world \<Rightarrow> world" where
  "target_free_working_area area w = log_event (Target_free_working_area area) w"

definition target_start_algorithm :: "env \<Rightarrow> u32 \<Rightarrow> world \<Rightarrow> retval \<times> world" where
  "target_start_algorithm env entry w =
     (let w' = log_event (Target_start_algorithm entry) w
      in (r_retval (env (trace w')), w'))"

definition target_halt :: "world \<Rightarrow> world" where
  "target_halt w = log_event Target_halt w"

definition target_wait_algorithm :: "env \<Rightarrow> int \<Rightarrow> world \<Rightarrow> retval \<times> world" where
  "target_wait_algorithm env timeout_ms w =
     (let w' = log_event (Target_wait_algorithm timeout_ms) w
      in (r_retval (env (trace w')), w'))"

text \<open>\<open>malloc\<close> of \<open>n\<close> sectors: the first component says whether the pointer is non-null.\<close>

definition malloc_sectors :: "env \<Rightarrow> nat \<Rightarrow> world \<Rightarrow> bool \<times> world" where
  "malloc_sectors env n w =
     (let w' = log_event (Malloc n) w in (\<not> r_null (env (trace w')), w'))"

subsection \<open>The bank\<close>

record flash_sector =
  offset :: u32
  sector_size :: u32
  is_erased :: int
  is_protected :: int

text \<open>
  \<open>struct cc26xx_bank\<close>. A two-element array is a pair, read with \<open>slot\<close>; the index
  is only ever 0 or 1. The working area pointer is the address of the area, or \<open>None\<close>
  when null. (\<open>armv7m_info\<close> is only handed on to the target layer and is left out.)
\<close>

record cc26xx_bank =
  family_name :: string
  icepick_id :: u32
  user_id :: u32
  device_type :: u32
  sector_length :: u32
  sram_size :: u32
  probed :: bool
  working_area :: "u32 option"
  algo_code :: "u8 list"
  algo_size :: u32
  algo_working_size :: u32
  algo_entry :: u32
  algo_buffer :: "u32 \<times> u32"
  algo_params :: "u32 \<times> u32"
  algo_status :: "u32 \<times> u32"

definition slot :: "u32 \<times> u32 \<Rightarrow> u32 \<Rightarrow> u32" where
  "slot a index = (if index = 0 then fst a else snd a)"

text \<open>
  \<open>struct flash_bank\<close>, the fields the driver uses. \<open>sectors\<close> is the pointer to the
  sector array: \<open>None\<close> when null.
\<close>

record flash_bank =
  bank_number :: int
  base :: u32
  bank_size :: u32
  num_sectors :: int
  sectors :: "flash_sector list option"
  driver_priv :: cc26xx_bank

text \<open>The private state that \<open>cc26xx_flash_bank_command\<close> sets up.\<close>

definition cc26xx_flash_bank_command :: "cc26xx_h \<Rightarrow> cc26xx_bank" where
  "cc26xx_flash_bank_command h =
     \<lparr>family_name = ''cc26xx'', icepick_id = 0, user_id = 0,
      device_type = CC26XX_NO_TYPE h, sector_length = 0x1000, sram_size = 0,
      probed = False, working_area = None, algo_code = [], algo_size = 0,
      algo_working_size = 0, algo_entry = 0, algo_buffer = (0, 0),
      algo_params = (0, 0), algo_status = (0, 0)\<rparr>"

subsection \<open>Undefined behaviour\<close>

text \<open>
  A store outside the sector array and a division by zero are undefined in C. The model
  stops there with a \<open>Fault\<close>, so a result \<open>Returns\<close> means that no such step was made.
\<close>

datatype fault = Out_of_bounds int | Division_by_zero

datatype 'a outcome = Fault fault | Returns 'a

text \<open>\<open>for (i = lo; i <= hi; i++) sectors[i].is_erased = v\<close>, over the indices in turn.\<close>

fun set_is_erased :: "int \<Rightarrow> int list \<Rightarrow> flash_sector list \<Rightarrow> flash_sector list outcome" where
  "set_is_erased v [] secs = Returns secs"
| "set_is_erased v (i # idxs) secs =
     (if 0 \<le> i \<and> i < int (length secs)
      then set_is_erased v idxs (secs[nat i := (secs ! nat i)\<lparr>is_erased := v\<rparr>])
      else Fault (Out_of_bounds i))"

definition mark_sectors :: "int \<Rightarrow> int \<Rightarrow> int \<Rightarrow> flash_bank \<Rightarrow> flash_bank outcome" where
  "mark_sectors v lo hi bank =
     (case sectors bank of
        None \<Rightarrow> Returns bank
      | Some secs \<Rightarrow>
          (case set_is_erased v [lo..hi] secs of
             Fault f \<Rightarrow> Fault f
           | Returns secs' \<Rightarrow> Returns (bank\<lparr>sectors := Some secs'\<rparr>)))"

subsection \<open>Waiting for the helper algorithm\<close>

text \<open>
  The poll loop of \<open>cc26xx_wait_algo_done\<close>. It leaves either by \<open>return retval\<close>
  (\<open>Inl\<close>) or at its end with the status last held (\<open>Inr\<close>). It need not end: with a
  status that stays full and a clock that stands still it polls for ever, which is the
  value \<open>None\<close>.
\<close>

partial_function (option) wait_loop ::
  "cc26xx_h \<Rightarrow> env \<Rightarrow> u32 \<Rightarrow> int \<Rightarrow> u32 \<Rightarrow> world \<Rightarrow> ((retval + u32) \<times> world) option" where
  "wait_loop h env status_addr start_ms status w =
     (if CC26XX_BUFFER_FULL h = status then
        (case target_read_buffer env status_addr w of
           (retval, status', w1) \<Rightarrow>
             if ERROR_OK \<noteq> retval then Some (Inl retval, w1)
             else
               (case timeval_ms env w1 of
                  (now, w2) \<Rightarrow>
                    let elapsed_ms = now - start_ms;
                        w3 = (if elapsed_ms > 500 then keep_alive w2 else w2)
                    in if elapsed_ms > FLASH_TIMEOUT then Some (Inr status', w3)
                       else wait_loop h env status_addr start_ms status' w3))
      else Some (Inr status, w))"

declare wait_loop.simps [code]

definition cc26xx_wait_algo_done ::
  "cc26xx_h \<Rightarrow> env \<Rightarrow> flash_bank \<Rightarrow> u32 \<Rightarrow> world \<Rightarrow> (retval \<times> world) option" where
  "cc26xx_wait_algo_done h env bank status_addr w =
     (case timeval_ms env (log_event (Call_wait_algo_done status_addr) w) of
        (start_ms, w1) \<Rightarrow>
          (case wait_loop h env status_addr start_ms (CC26XX_BUFFER_FULL h) w1 of
             None \<Rightarrow> None
           | Some (Inl retval, w2) \<Rightarrow> Some (retval, w2)
           | Some (Inr status, w2) \<Rightarrow>
               if CC26XX_BUFFER_EMPTY h \<noteq> status
               then Some (ERROR_FAIL,
                      LOG_ERROR (family_name (driver_priv bank) @ '': Flash operation failed'') w2)
               else Some (ERROR_OK, w2)))"

subsection \<open>Probing\<close>

text \<open>The switch of \<open>cc26xx_probe\<close> that selects the helper algorithm of the family.\<close>

definition set_algo :: "algo_layout \<Rightarrow> cc26xx_bank \<Rightarrow> cc26xx_bank" where
  "set_algo l priv =
     priv\<lparr>algo_code := ALGO_CODE l,
          algo_size := of_nat (length (ALGO_CODE l)),
          algo_working_size := WORKING_SIZE l,
          algo_entry := ALGO_ENTRY l,
          algo_buffer := (ALGO_BUFFER_0 l, ALGO_BUFFER_1 l),
          algo_params := (ALGO_PARAMS_0 l, ALGO_PARAMS_1 l),
          algo_status := (ALGO_STATUS_0 l, ALGO_STATUS_1 l)\<rparr>"

text \<open>The sector table that the last loop of \<open>cc26xx_probe\<close> fills in.\<close>

definition new_sectors :: "nat \<Rightarrow> u32 \<Rightarrow> flash_sector list" where
  "new_sectors n len =
     map (\<lambda>i. \<lparr>offset = of_nat i * len, sector_size = len,
               is_erased = - 1, is_protected = 0\<rparr>) [0..<n]"

definition cc26xx_probe ::
  "cc26xx_h \<Rightarrow> env \<Rightarrow> world \<Rightarrow> flash_bank \<Rightarrow> retval \<times> world \<times> flash_bank" where
  "cc26xx_probe h env w bank =
     (if TARGET_HALTED \<noteq> state w
      then (ERROR_TARGET_NOT_HALTED, LOG_ERROR ''Target not halted'' w, bank)
      else
       (case target_read_u32 env (FCFG1_ICEPICK_ID h) w of
          (retval, v1, w1) \<Rightarrow>
        if ERROR_OK \<noteq> retval then (retval, w1, bank)
        else
       (let priv1 = (driver_priv bank)\<lparr>icepick_id := v1\<rparr> in
        case target_read_u32 env (FCFG1_USER_ID h) w1 of
          (retval, v2, w2) \<Rightarrow>
        if ERROR_OK \<noteq> retval then (retval, w2, bank\<lparr>driver_priv := priv1\<rparr>)
        else
       (let priv2 = priv1\<lparr>user_id := v2\<rparr>;
            priv3 = priv2\<lparr>device_type :=
                      cc26xx_device_type h (icepick_id priv2) (user_id priv2)\<rparr>;
            len = cc26xx_sector_length h (icepick_id priv3) in
        case target_read_u32 env (CC26XX_SRAM_SIZE_INFO h) w2 of
          (retval, v3, w3) \<Rightarrow>
        if ERROR_OK \<noteq> retval then (retval, w3, bank\<lparr>driver_priv := priv3\<rparr>)
        else
       (let priv4 = priv3\<lparr>sram_size := cc26xx_sram_size h (icepick_id priv3) v3\<rparr> in
        case target_read_u32 env (CC26XX_FLASH_SIZE_INFO h) w3 of
          (retval, v4, w4) \<Rightarrow>
        if ERROR_OK \<noteq> retval then (retval, w4, bank\<lparr>driver_priv := priv4\<rparr>)
        else
       (let n = (if unat (v4 AND 0xff) > CC26XX_MAX_SECTOR_COUNT h
                 then CC26XX_MAX_SECTOR_COUNT h else unat (v4 AND 0xff));
            priv5 = (if chameleon_id h (icepick_id priv4)
                     then set_algo (CC26XX_CHAMELEON h) priv4
                     else set_algo (CC26XX_AGAMA h) priv4) in
        case malloc_sectors env n w4 of
          (ok, w5) \<Rightarrow>
        if \<not> ok then (ERROR_FAIL, w5, bank\<lparr>sectors := None, driver_priv := priv5\<rparr>)
        else
          (ERROR_OK, w5,
           bank\<lparr>base := CC26XX_FLASH_BASE_ADDR h,
                num_sectors := int n,
                bank_size := of_nat n * len,
                sectors := Some (new_sectors n len),
                driver_priv := priv5\<lparr>sector_length := len, probed := True\<rparr>\<rparr>)))))))"

definition cc26xx_auto_probe ::
  "cc26xx_h \<Rightarrow> env \<Rightarrow> world \<Rightarrow> flash_bank \<Rightarrow> retval \<times> world \<times> flash_bank" where
  "cc26xx_auto_probe h env w bank =
     (if bank_number bank \<noteq> 0 then (ERROR_FAIL, w, bank)
      else if \<not> probed (driver_priv bank) then cc26xx_probe h env w bank
      else (ERROR_OK, w, bank))"

subsection \<open>Starting and stopping the helper algorithm\<close>

definition cc26xx_init ::
  "cc26xx_h \<Rightarrow> env \<Rightarrow> world \<Rightarrow> flash_bank \<Rightarrow> (retval \<times> world \<times> flash_bank) outcome" where
  "cc26xx_init h env w bank =
     (case cc26xx_auto_probe h env w bank of
        (retval, w1, bank1) \<Rightarrow>
      if ERROR_OK \<noteq> retval then Returns (retval, w1, bank1)
      else
     (let priv = driver_priv bank1;
          w2 = (if working_area priv \<noteq> None
                then target_free_working_area (working_area priv) w1 else w1) in
      case target_alloc_working_area env (algo_working_size priv) w2 of
        (retval, area, w3) \<Rightarrow>
      if ERROR_OK \<noteq> retval then Returns (retval, w3, bank1)
      else
     (let bank2 = bank1\<lparr>driver_priv := priv\<lparr>working_area := Some area\<rparr>\<rparr> in
      if CC26XX_ALGO_BASE_ADDRESS h \<noteq> area
      then Returns (ERROR_TARGET_RESOURCE_NOT_AVAILABLE, w3, bank2)
      else
     (case target_write_buffer env (CC26XX_ALGO_BASE_ADDRESS h)
             (Code (take (unat (algo_size priv)) (algo_code priv))) w3 of
        (retval, w4) \<Rightarrow>
      if ERROR_OK \<noteq> retval then Returns (retval, w4, bank2)
      else
     (case target_start_algorithm env (algo_entry priv) w4 of
        (retval, w5) \<Rightarrow>
      if ERROR_OK \<noteq> retval
      then Returns (retval,
             LOG_ERROR (family_name priv @ '': Failed to start flash helper algorithm'') w5,
             bank2)
      else
     (case mark_sectors (- 1) 0 (num_sectors bank2 - 1) bank2 of
        Fault f \<Rightarrow> Fault f
      | Returns bank3 \<Rightarrow> Returns (retval, w5, bank3)))))))"

definition cc26xx_quit :: "env \<Rightarrow> world \<Rightarrow> flash_bank \<Rightarrow> retval \<times> world \<times> flash_bank" where
  "cc26xx_quit env w bank =
     (let w1 = target_halt (log_event Call_quit w) in
      case target_wait_algorithm env FLASH_TIMEOUT w1 of
        (retval, w2) \<Rightarrow>
          (retval,
           target_free_working_area (working_area (driver_priv bank)) w2,
           bank\<lparr>driver_priv := (driver_priv bank)\<lparr>working_area := None\<rparr>\<rparr>))"

subsection \<open>Mass erase\<close>

definition cc26xx_mass_erase ::
  "cc26xx_h \<Rightarrow> env \<Rightarrow> world \<Rightarrow> flash_bank \<Rightarrow> (retval \<times> world \<times> flash_bank) outcome option" where
  "cc26xx_mass_erase h env w bank =
     (if TARGET_HALTED \<noteq> state w
      then Some (Returns (ERROR_TARGET_NOT_HALTED, LOG_ERROR ''Target not halted'' w, bank))
      else
     (case cc26xx_init h env w bank of
        Fault f \<Rightarrow> Some (Fault f)
      | Returns (retval, w1, bank1) \<Rightarrow>
      if ERROR_OK \<noteq> retval then Some (Returns (retval, w1, bank1))
      else
     (let priv = driver_priv bank1;
          p = \<lparr>p_address = 0, p_length = 4, p_command = CC26XX_CMD_ERASE_ALL h,
               p_status = CC26XX_BUFFER_FULL h, p_buffer = slot (algo_buffer priv) 0\<rparr> in
      case target_write_buffer env (slot (algo_params priv) 0) (Params p) w1 of
        (retval, w2) \<Rightarrow>
     (case (if ERROR_OK = retval
            then cc26xx_wait_algo_done h env bank1 (slot (algo_status priv) 0) w2
            else Some (retval, w2)) of
        None \<Rightarrow> None
      | Some (retval, w3) \<Rightarrow>
     (case cc26xx_quit env w3 bank1 of
        (_, w4, bank2) \<Rightarrow>
      if ERROR_OK = retval then
        (case mark_sectors 1 0 (num_sectors bank2 - 1) bank2 of
           Fault f \<Rightarrow> Some (Fault f)
         | Returns bank3 \<Rightarrow> Some (Returns (retval, w4, bank3)))
      else Some (Returns (retval, w4, bank2)))))))"

subsection \<open>Sector erase\<close>

text \<open>
  The loop \<open>for (int i = first; i <= last; i++)\<close> of \<open>cc26xx_erase\<close>, from sector
  \<open>i\<close> on. It hands back \<open>retval\<close> and \<open>index\<close> as the loop leaves them.
\<close>

function erase_loop ::
  "cc26xx_h \<Rightarrow> env \<Rightarrow> flash_bank \<Rightarrow> int \<Rightarrow> int \<Rightarrow> u32 \<Rightarrow> world \<Rightarrow> (retval \<times> u32 \<times> world) option" where
  "erase_loop h env bank last_s i index w =
     (if i \<le> last_s then
        (let priv = driver_priv bank;
             p = \<lparr>p_address = base bank + of_int i * sector_length priv,
                  p_length = 4, p_command = CC26XX_CMD_ERASE_AND_PROGRAM h,
                  p_status = CC26XX_BUFFER_FULL h,
                  p_buffer = slot (algo_buffer priv) index\<rparr> in
         case target_write_buffer env (slot (algo_params priv) index) (Params p) w of
           (retval, w1) \<Rightarrow>
         if ERROR_OK \<noteq> retval then Some (retval, index, w1)
         else
           (case cc26xx_wait_algo_done h env bank
                   (slot (algo_status priv) (index XOR 1)) w1 of
              None \<Rightarrow> None
            | Some (retval, w2) \<Rightarrow>
                if ERROR_OK \<noteq> retval then Some (retval, index XOR 1, w2)
                else erase_loop h env bank last_s (i + 1) (index XOR 1) w2))
      else Some (ERROR_OK, index, w))"
  by pat_completeness auto
termination
  by (relation "measure (\<lambda>(h, env, bank, last_s, i, index, w). nat (last_s + 1 - i))") auto

declare erase_loop.simps [simp del]

text \<open>
  \<open>cc26xx_erase\<close> from its call of \<open>cc26xx_init\<close> on: the path that erases the
  sectors one by one.
\<close>

definition cc26xx_erase_range ::
  "cc26xx_h \<Rightarrow> env \<Rightarrow> world \<Rightarrow> flash_bank \<Rightarrow> int \<Rightarrow> int \<Rightarrow>
   (retval \<times> world \<times> flash_bank) outcome option" where
  "cc26xx_erase_range h env w bank first last_s =
     (case cc26xx_init h env w bank of
        Fault f \<Rightarrow> Some (Fault f)
      | Returns (retval, w1, bank1) \<Rightarrow>
      if ERROR_OK \<noteq> retval then Some (Returns (retval, w1, bank1))
      else
     (let priv = driver_priv bank1 in
      case target_write_buffer env (slot (algo_buffer priv) 0) (Word32 0xffffffff) w1 of
        (retval, w2) \<Rightarrow>
      if ERROR_OK \<noteq> retval then Some (Returns (retval, w2, bank1))
      else
     (case (if last_s - first > 0
            then target_write_buffer env (slot (algo_buffer priv) 1) (Word32 0xffffffff) w2
            else (retval, w2)) of
        (retval, w3) \<Rightarrow>
      if ERROR_OK \<noteq> retval then Some (Returns (retval, w3, bank1))
      else
     (case erase_loop h env bank1 last_s first 0 w3 of
        None \<Rightarrow> None
      | Some (retval, index, w4) \<Rightarrow>
     (case (if ERROR_OK = retval
            then cc26xx_wait_algo_done h env bank1
                   (slot (algo_status priv) (index XOR 1)) w4
            else Some (retval, w4)) of
        None \<Rightarrow> None
      | Some (retval, w5) \<Rightarrow>
     (case cc26xx_quit env w5 bank1 of
        (_, w6, bank2) \<Rightarrow>
      if ERROR_OK = retval then
        (case mark_sectors 1 first last_s bank2 of
           Fault f \<Rightarrow> Some (Fault f)
         | Returns bank3 \<Rightarrow> Some (Returns (retval, w6, bank3)))
      else Some (Returns (retval, w6, bank2))))))))"

definition cc26xx_erase ::
  "cc26xx_h \<Rightarrow> env \<Rightarrow> world \<Rightarrow> flash_bank \<Rightarrow> int \<Rightarrow> int \<Rightarrow>
   (retval \<times> world \<times> flash_bank) outcome option" where
  "cc26xx_erase h env w bank first last_s =
     (if TARGET_HALTED \<noteq> state w
      then Some (Returns (ERROR_TARGET_NOT_HALTED, LOG_ERROR ''Target not halted'' w, bank))
      else if 0 = bank_number bank \<and> first = 0 \<and> last_s = num_sectors bank - 1
      then cc26xx_mass_erase h env w bank
      else cc26xx_erase_range h env w bank first last_s)"

subsection \<open>Programming\<close>

text \<open>
  The loop \<open>while (count > 0)\<close> of \<open>cc26xx_write\<close>. With a sector length of 0 it
  never ends.
\<close>

partial_function (option) write_loop ::
  "cc26xx_h \<Rightarrow> env \<Rightarrow> flash_bank \<Rightarrow> int \<Rightarrow> u32 \<Rightarrow> u8 list \<Rightarrow> u32 \<Rightarrow> u32 \<Rightarrow> world \<Rightarrow>
   (retval \<times> u32 \<times> world) option" where
  "write_loop h env bank start_ms count buffer address index w =
     (if count > 0 then
        (let priv = driver_priv bank;
             sz = (if count > sector_length priv then sector_length priv else count) in
         case target_write_buffer env (slot (algo_buffer priv) index)
                (Data (take (unat sz) buffer)) w of
           (retval, w1) \<Rightarrow>
         if ERROR_OK \<noteq> retval
         then Some (retval, index, LOG_ERROR ''Unable to write data to target memory'' w1)
         else
        (let p = \<lparr>p_address = address, p_length = sz,
                  p_command = CC26XX_CMD_PROGRAM h,
                  p_status = CC26XX_BUFFER_FULL h,
                  p_buffer = slot (algo_buffer priv) index\<rparr> in
         case target_write_buffer env (slot (algo_params priv) index) (Params p) w1 of
           (retval, w2) \<Rightarrow>
         if ERROR_OK \<noteq> retval then Some (retval, index, w2)
         else
        (case cc26xx_wait_algo_done h env bank
                (slot (algo_status priv) (index XOR 1)) w2 of
           None \<Rightarrow> None
         | Some (retval, w3) \<Rightarrow>
         if ERROR_OK \<noteq> retval then Some (retval, index XOR 1, w3)
         else
        (case timeval_ms env w3 of
           (now, w4) \<Rightarrow>
             let elapsed_ms = now - start_ms;
                 w5 = (if elapsed_ms > 500 then keep_alive w4 else w4)
             in write_loop h env bank start_ms (count - sz) (drop (unat sz) buffer)
                  (address + sz) (index XOR 1) w5))))
      else Some (ERROR_OK, index, w))"

declare write_loop.simps [code]

definition end_address :: "u32 \<Rightarrow> u32 \<Rightarrow> u32" where
  "end_address offs count = offs + count - 1"

text \<open>
  The loop \<open>while (offset <= end_address)\<close> that marks the sectors written as not
  erased. The sums are 32-bit, so the loop need not end.
\<close>

partial_function (option) mark_not_erased ::
  "u32 \<Rightarrow> u32 \<Rightarrow> u32 \<Rightarrow> flash_sector list \<Rightarrow> flash_sector list outcome option" where
  "mark_not_erased len end_addr offs secs =
     (if offs \<le> end_addr then
        (if len = 0 then Some (Fault Division_by_zero)
         else
           (let sector = offs div len in
            if unat sector < length secs
            then mark_not_erased len end_addr (offs + len)
                   (secs[unat sector := (secs ! unat sector)\<lparr>is_erased := 0\<rparr>])
            else Some (Fault (Out_of_bounds (uint sector)))))
      else Some (Returns secs))"

declare mark_not_erased.simps [code]

definition cc26xx_write ::
  "cc26xx_h \<Rightarrow> env \<Rightarrow> world \<Rightarrow> flash_bank \<Rightarrow> u8 list \<Rightarrow> u32 \<Rightarrow> u32 \<Rightarrow>
   (retval \<times> world \<times> flash_bank) outcome option" where
  "cc26xx_write h env w bank buffer offs count =
     (if TARGET_HALTED \<noteq> state w
      then Some (Returns (ERROR_TARGET_NOT_HALTED, LOG_ERROR ''Target not halted'' w, bank))
      else
     (case cc26xx_init h env w bank of
        Fault f \<Rightarrow> Some (Fault f)
      | Returns (retval, w1, bank1) \<Rightarrow>
      if ERROR_OK \<noteq> retval then Some (Returns (retval, w1, bank1))
      else
     (let priv = driver_priv bank1 in
      case timeval_ms env w1 of
        (start_ms, w2) \<Rightarrow>
     (case write_loop h env bank1 start_ms count buffer (base bank1 + offs) 0 w2 of
        None \<Rightarrow> None
      | Some (retval, index, w3) \<Rightarrow>
     (case (if ERROR_OK = retval
            then cc26xx_wait_algo_done h env bank1
                   (slot (algo_status priv) (index XOR 1)) w3
            else Some (retval, w3)) of
        None \<Rightarrow> None
      | Some (retval, w4) \<Rightarrow>
     (case cc26xx_quit env w4 bank1 of
        (_, w5, bank2) \<Rightarrow>
      if ERROR_OK = retval then
        (case sectors bank2 of
           None \<Rightarrow> Some (Returns (retval, w5, bank2))
         | Some secs \<Rightarrow>
             (case mark_not_erased (sector_length priv) (end_address offs count) offs secs of
                None \<Rightarrow> None
              | Some (Fault f) \<Rightarrow> Some (Fault f)
              | Some (Returns secs') \<Rightarrow>
                  Some (Returns (retval, w5, bank2\<lparr>sectors := Some secs'\<rparr>))))
      else Some (Returns (retval, w5, bank2))))))))"

section \<open>Observations\<close>

subsection \<open>Traces\<close>

text \<open>
  The clock advances: whatever time \<open>t\<close> is named, after some number of calls every
  reading of the clock is later than \<open>t\<close>.
\<close>

definition clock_advances :: "env \<Rightarrow> bool" where
  "clock_advances env \<longleftrightarrow> (\<forall>t. \<exists>n. \<forall>tr. n \<le> length tr \<longrightarrow> t < r_ms (env tr))"

text \<open>
  The reply of the environment to the latest call \<open>e\<close> of a trace (the trace is
  searched from its end).
\<close>

fun last_reply_rev :: "env \<Rightarrow> event \<Rightarrow> event list \<Rightarrow> reply option" where
  "last_reply_rev env e [] = None"
| "last_reply_rev env e (x # xs) =
     (if x = e then Some (env (rev (x # xs))) else last_reply_rev env e xs)"

definition last_reply :: "env \<Rightarrow> event \<Rightarrow> event list \<Rightarrow> reply option" where
  "last_reply env e tr = last_reply_rev env e (rev tr)"

text \<open>
  What the poll loop of \<open>cc26xx_wait_algo_done\<close> hands back, given the status \<open>s\<close> and
  the world \<open>w\<close> it was entered with: a failed read is the last call made and its code is
  handed back; otherwise the status handed back is the one the latest read gave (or, when
  the loop was entered with a status that is not full, that status).
\<close>

definition poll_result ::
  "cc26xx_h \<Rightarrow> env \<Rightarrow> u32 \<Rightarrow> u32 \<Rightarrow> world \<Rightarrow> (retval + u32) \<times> world \<Rightarrow> bool" where
  "poll_result h env a s w y \<longleftrightarrow>
     (case fst y of
        Inl rv \<Rightarrow> rv \<noteq> ERROR_OK \<and> trace (snd y) \<noteq> [] \<and>
                  last (trace (snd y)) = Target_read_buffer a \<and>
                  (\<exists>rep. last_reply env (Target_read_buffer a) (trace (snd y)) = Some rep \<and>
                     r_retval rep = rv)
      | Inr s' \<Rightarrow> (s \<noteq> CC26XX_BUFFER_FULL h \<and> s' = s \<and> snd y = w) \<or>
                  (\<exists>rep. last_reply env (Target_read_buffer a) (trace (snd y)) = Some rep \<and>
                     r_retval rep = ERROR_OK \<and> r_word rep = s'))"

text \<open>
  The heartbeat and the timeout in a trace \<open>T\<close>, from position \<open>n\<close> on, for a wait on
  \<open>a\<close> that started at \<open>start\<close>: a reading of the clock is followed at once by a
  keep-alive exactly when it is more than 500 ms after \<open>start\<close>, and no status read
  follows a reading that is more than \<open>FLASH_TIMEOUT\<close> after \<open>start\<close>.
\<close>

definition poll_trace_ok :: "env \<Rightarrow> u32 \<Rightarrow> int \<Rightarrow> nat \<Rightarrow> event list \<Rightarrow> bool" where
  "poll_trace_ok env a start n T \<longleftrightarrow>
     (\<forall>i. n \<le> i \<and> i < length T \<and> T ! i = Timeval_ms \<longrightarrow>
        ((500 < r_ms (env (take (Suc i) T)) - start) =
           (Suc i < length T \<and> T ! Suc i = Keep_alive)) \<and>
        (FLASH_TIMEOUT < r_ms (env (take (Suc i) T)) - start \<longrightarrow>
           (\<forall>j. i < j \<and> j < length T \<longrightarrow> T ! j \<noteq> Target_read_buffer a)))"

text \<open>The poll loop only adds to the trace, and what it adds begins with a status read.\<close>

definition poll_ext :: "u32 \<Rightarrow> world \<Rightarrow> world \<Rightarrow> bool" where
  "poll_ext a w w' \<longleftrightarrow>
     (\<exists>evs. trace w' = trace w @ evs \<and> (evs = [] \<or> hd evs = Target_read_buffer a))"

text \<open>
  The rounds of the wait, in the words of the specification. One round after the trace
  \<open>pre\<close>: the status word is read; when the read succeeded the clock is read; when
  more than 500 ms have passed since \<open>start\<close> a keep-alive is sent.
\<close>

definition poll_round :: "env \<Rightarrow> u32 \<Rightarrow> int \<Rightarrow> event list \<Rightarrow> event list" where
  "poll_round env a start pre =
     pre @ [Target_read_buffer a] @
     (if r_retval (env (pre @ [Target_read_buffer a])) = ERROR_OK
      then Timeval_ms #
           (if 500 < r_ms (env (pre @ [Target_read_buffer a, Timeval_ms])) - start
            then [Keep_alive] else [])
      else [])"

text \<open>
  The wait goes on after the round that follows \<open>pre\<close>: the read succeeded, the status
  read is "full", and no more than \<open>FLASH_TIMEOUT\<close> ms have passed since \<open>start\<close>.
\<close>

definition polls_on :: "cc26xx_h \<Rightarrow> env \<Rightarrow> u32 \<Rightarrow> int \<Rightarrow> event list \<Rightarrow> bool" where
  "polls_on h env a start pre \<longleftrightarrow>
     r_retval (env (pre @ [Target_read_buffer a])) = ERROR_OK \<and>
     r_word (env (pre @ [Target_read_buffer a])) = CC26XX_BUFFER_FULL h \<and>
     r_ms (env (pre @ [Target_read_buffer a, Timeval_ms])) - start \<le> FLASH_TIMEOUT"

text \<open>The trace after \<open>k\<close> rounds.\<close>

fun after_rounds :: "env \<Rightarrow> u32 \<Rightarrow> int \<Rightarrow> nat \<Rightarrow> event list \<Rightarrow> event list" where
  "after_rounds env a start 0 pre = pre"
| "after_rounds env a start (Suc k) pre =
     after_rounds env a start k (poll_round env a start pre)"

text \<open>
  The wait makes exactly \<open>k + 1\<close> rounds: it goes on after each of the first \<open>k\<close>
  rounds and does not go on after the next.
\<close>

definition polled :: "cc26xx_h \<Rightarrow> env \<Rightarrow> u32 \<Rightarrow> int \<Rightarrow> event list \<Rightarrow> nat \<Rightarrow> bool" where
  "polled h env a start pre k \<longleftrightarrow>
     list_all (\<lambda>i. polls_on h env a start (after_rounds env a start i pre)) [0..<k] \<and>
     \<not> polls_on h env a start (after_rounds env a start k pre)"

text \<open>
  The last round, after the trace \<open>pre\<close>, and what the wait returns: the code of a
  failed read; else \<open>ERROR_FAIL\<close>, after an error message that begins with the family
  name, when the status read is not "empty"; else \<open>ERROR_OK\<close>.
\<close>

definition poll_end ::
  "cc26xx_h \<Rightarrow> env \<Rightarrow> flash_bank \<Rightarrow> u32 \<Rightarrow> int \<Rightarrow> event list \<Rightarrow> retval \<times> event list" where
  "poll_end h env bank a start pre =
     (let rep = env (pre @ [Target_read_buffer a]) in
      if r_retval rep \<noteq> ERROR_OK then (r_retval rep, poll_round env a start pre)
      else if r_word rep \<noteq> CC26XX_BUFFER_EMPTY h
      then (ERROR_FAIL,
            poll_round env a start pre @
              [Log_error (family_name (driver_priv bank) @ '': Flash operation failed'')])
      else (ERROR_OK, poll_round env a start pre))"

text \<open>The number of calls of \<open>cc26xx_quit\<close> in a trace.\<close>

definition quit_of :: "event \<Rightarrow> event list" where
  "quit_of e = (if e = Call_quit then [e] else [])"

definition quit_calls :: "event list \<Rightarrow> nat" where
  "quit_calls tr = length (concat (map quit_of tr))"

text \<open>
  The handshake in a trace: the writes of data (a block of data or the all-ones word)
  and of parameter blocks, and the calls of \<open>cc26xx_wait_algo_done\<close>, each with its
  address, in the order they were made. A parameter block is shown with the address it
  is written to and the address of the data buffer that it names.
\<close>

datatype handshake = Post_data u32 | Post_params u32 u32 | Wait_done u32

fun handshake_of :: "event \<Rightarrow> handshake list" where
  "handshake_of (Target_write_buffer a (Data d)) = [Post_data a]"
| "handshake_of (Target_write_buffer a (Word32 v)) = [Post_data a]"
| "handshake_of (Target_write_buffer a (Params p)) = [Post_params a (p_buffer p)]"
| "handshake_of (Call_wait_algo_done a) = [Wait_done a]"
| "handshake_of e = []"

definition handshakes :: "event list \<Rightarrow> handshake list" where
  "handshakes tr = concat (map handshake_of tr)"

text \<open>
  A view \<open>g\<close> of the events is silent on polling, or on setting up, when it shows
  nothing of the events that the poll loop, or \<open>cc26xx_init\<close>, makes.
\<close>

definition silent_poll :: "(event \<Rightarrow> 'a list) \<Rightarrow> bool" where
  "silent_poll g \<longleftrightarrow>
     g Timeval_ms = [] \<and> g Keep_alive = [] \<and> (\<forall>a. g (Target_read_buffer a) = []) \<and>
     (\<forall>m. g (Log_error m) = [])"

definition silent_init :: "(event \<Rightarrow> 'a list) \<Rightarrow> bool" where
  "silent_init g \<longleftrightarrow>
     (\<forall>m. g (Log_error m) = []) \<and> (\<forall>a. g (Target_read_u32 a) = []) \<and>
     (\<forall>n. g (Malloc n) = []) \<and> (\<forall>a. g (Target_free_working_area a) = []) \<and>
     (\<forall>s. g (Target_alloc_working_area s) = []) \<and>
     (\<forall>a c. g (Target_write_buffer a (Code c)) = []) \<and>
     (\<forall>e. g (Target_start_algorithm e) = [])"

text \<open>
  The handshake of round \<open>i\<close> (counted from 0) of the sector erase and of the
  programming loop, in the words of the specification: the round posts to slot
  \<open>i mod 2\<close> and then waits on the other slot. A round of the sector erase posts a
  parameter block only.
\<close>

definition erase_round :: "cc26xx_bank \<Rightarrow> nat \<Rightarrow> handshake list" where
  "erase_round priv i =
     [Post_params (slot (algo_params priv) (of_nat (i mod 2)))
        (slot (algo_buffer priv) (of_nat (i mod 2))),
      Wait_done (slot (algo_status priv) (of_nat (Suc i mod 2)))]"

definition write_round :: "cc26xx_bank \<Rightarrow> nat \<Rightarrow> handshake list" where
  "write_round priv i =
     [Post_data (slot (algo_buffer priv) (of_nat (i mod 2))),
      Post_params (slot (algo_params priv) (of_nat (i mod 2)))
        (slot (algo_buffer priv) (of_nat (i mod 2))),
      Wait_done (slot (algo_status priv) (of_nat (Suc i mod 2)))]"

text \<open>The number of blocks of at most \<open>len\<close> bytes that \<open>count\<close> bytes make.\<close>

definition chunks :: "u32 \<Rightarrow> u32 \<Rightarrow> nat" where
  "chunks count len = (unat count + unat len - 1) div unat len"

text \<open>
  The helper algorithm was started by a call: the target was halted and \<open>cc26xx_init\<close>
  succeeded.
\<close>

definition started :: "cc26xx_h \<Rightarrow> env \<Rightarrow> world \<Rightarrow> flash_bank \<Rightarrow> bool" where
  "started h env w bank \<longleftrightarrow>
     state w = TARGET_HALTED \<and>
     (\<exists>w1 b1. cc26xx_init h env w bank = Returns (ERROR_OK, w1, b1))"

text \<open>
  The writes of the all-ones word that \<open>cc26xx_erase\<close> makes after \<open>cc26xx_init\<close>
  (into the first buffer, and into the second when more than one sector is erased)
  succeeded.
\<close>

definition erase_buffers_written :: "env \<Rightarrow> world \<Rightarrow> flash_bank \<Rightarrow> int \<Rightarrow> int \<Rightarrow> bool" where
  "erase_buffers_written env w1 b1 first last_s \<longleftrightarrow>
     (case target_write_buffer env (slot (algo_buffer (driver_priv b1)) 0)
             (Word32 0xffffffff) w1 of
        (retval, w2) \<Rightarrow>
          retval = ERROR_OK \<and>
          (last_s - first > 0 \<longrightarrow>
             fst (target_write_buffer env (slot (algo_buffer (driver_priv b1)) 1)
                    (Word32 0xffffffff) w2) = ERROR_OK))"

subsection \<open>Sector tables\<close>

text \<open>
  The sector array has \<open>num_sectors\<close> entries. \<open>cc26xx_probe\<close> is the only code that
  sets either, and sets them together.
\<close>

definition sector_table_ok :: "flash_bank \<Rightarrow> bool" where
  "sector_table_ok bank \<longleftrightarrow>
     (case sectors bank of None \<Rightarrow> True | Some secs \<Rightarrow> int (length secs) = num_sectors bank)"

text \<open>The bank with its working area pointer set to \<open>a\<close>.\<close>

definition with_area :: "u32 option \<Rightarrow> flash_bank \<Rightarrow> flash_bank" where
  "with_area a bank = bank\<lparr>driver_priv := (driver_priv bank)\<lparr>working_area := a\<rparr>\<rparr>"

text \<open>The erase status of the sectors, in order (empty when there is no table).\<close>

definition erase_states :: "flash_bank \<Rightarrow> int list" where
  "erase_states bank = (case sectors bank of None \<Rightarrow> [] | Some secs \<Rightarrow> map is_erased secs)"

text \<open>What a call returned and the erase states it left, for a call that returned.\<close>

definition returned :: "(retval \<times> world \<times> flash_bank) outcome option \<Rightarrow> (retval \<times> int list) option" where
  "returned r =
     (case r of
        Some (Returns (retval, w, bank)) \<Rightarrow> Some (retval, erase_states bank)
      | _ \<Rightarrow> None)"

text \<open>The trace a call left, for a call that returned.\<close>

definition returned_trace :: "(retval \<times> world \<times> flash_bank) outcome option \<Rightarrow> event list option" where
  "returned_trace r =
     (case r of
        Some (Returns (retval, w, bank)) \<Rightarrow> Some (trace w)
      | _ \<Rightarrow> None)"

subsection \<open>A device for the examples\<close>

text \<open>
  One choice of the header's constants, a halted target, a probed bank of four sectors
  of 0x1000 bytes with erase states 1, 0, 1, 0, and environments: one where every call
  succeeds and every status word reads empty, and others that differ from it in one
  answer.
\<close>

definition layout0 :: algo_layout where
  "layout0 = \<lparr>ALGO_CODE = [0x70, 0x47], WORKING_SIZE = 0x6c00, ALGO_ENTRY = 0x20000001,
     ALGO_BUFFER_0 = 0x20001c00, ALGO_BUFFER_1 = 0x20002c00,
     ALGO_PARAMS_0 = 0x20001bd8, ALGO_PARAMS_1 = 0x20001bec,
     ALGO_STATUS_0 = 0x20001be4, ALGO_STATUS_1 = 0x20001bf8\<rparr>"

definition h0 :: cc26xx_h where
  "h0 = \<lparr>ICEPICK_ID_MASK = 0x0fffffff, ICEPICK_REV_MASK = 0xf0000000,
     CC26X0_ICEPICK_ID = 0x0b99a02f, CC26X1_ICEPICK_ID = 0x0b9bd02f,
     CC13X0_ICEPICK_ID = 0x0b9be02f, CC13X2_CC26X2_ICEPICK_ID = 0x0bb4102f,
     USER_ID_CC13_MASK = 0x00800000,
     CC26XX_NO_TYPE = 0, CC26X0_TYPE = 1, CC26X1_TYPE = 2, CC13X0_TYPE = 3,
     CC13X2_TYPE = 4, CC26X2_TYPE = 5,
     CC26XX_CHAMELEON_SECTOR_LENGTH = 0x1000, CC26XX_AGAMA_SECTOR_LENGTH = 0x2000,
     CC26XX_MAX_SECTOR_COUNT = 128,
     CC26XX_BUFFER_FULL = 0xffffffff, CC26XX_BUFFER_EMPTY = 0,
     CC26XX_CMD_ERASE_ALL = 1, CC26XX_CMD_PROGRAM = 2, CC26XX_CMD_ERASE_AND_PROGRAM = 3,
     FCFG1_ICEPICK_ID = 0x50001318, FCFG1_USER_ID = 0x50001294,
     CC26XX_SRAM_SIZE_INFO = 0x40082250, CC26XX_FLASH_SIZE_INFO = 0x4003002c,
     CC26XX_ALGO_BASE_ADDRESS = 0x20000000, CC26XX_FLASH_BASE_ADDR = 0,
     CC26XX_CHAMELEON = layout0, CC26XX_AGAMA = layout0\<rparr>"

definition reply_ok :: reply where
  "reply_ok = \<lparr>r_retval = ERROR_OK, r_word = 0, r_ms = 0, r_null = False\<rparr>"

definition env_ok :: env where
  "env_ok tr =
     (case last tr of
        Target_alloc_working_area sz \<Rightarrow> reply_ok\<lparr>r_word := 0x20000000\<rparr>
      | _ \<Rightarrow> reply_ok)"


text \<open>Every write of the all-ones word fails.\<close>

definition env_word_fail :: env where
  "env_word_fail tr =
     (case last tr of
        Target_write_buffer a (Word32 v) \<Rightarrow> reply_ok\<lparr>r_retval := ERROR_FAIL\<rparr>
      | _ \<Rightarrow> env_ok tr)"

text \<open>
  Every status word reads full for ever, and each call takes ten seconds by the clock.
\<close>

definition env_stuck :: env where
  "env_stuck tr = reply_ok\<lparr>r_word := 0xffffffff, r_ms := 10000 * int (length tr)\<rparr>"

text \<open>
  The status word reads full until the trace has eight calls and empty after that, and
  each call takes 200 ms by the clock.
\<close>

definition env_busy :: env where
  "env_busy tr =
     reply_ok\<lparr>r_word := (if length tr < 8 then 0xffffffff else 0), r_ms := 200 * int (length tr)\<rparr>"


definition w0 :: world where
  "w0 = \<lparr>state = TARGET_HALTED, trace = []\<rparr>"

definition w_running :: world where
  "w_running = \<lparr>state = TARGET_RUNNING, trace = []\<rparr>"

definition sector0 :: "nat \<Rightarrow> int \<Rightarrow> flash_sector" where
  "sector0 i e = \<lparr>offset = of_nat i * 0x1000, sector_size = 0x1000, is_erased = e, is_protected = 0\<rparr>"

definition bank0 :: flash_bank where
  "bank0 = \<lparr>bank_number = 0, base = 0, bank_size = 0x4000, num_sectors = 4,
     sectors = Some [sector0 0 1, sector0 1 0, sector0 2 1, sector0 3 0],
     driver_priv = (set_algo layout0 (cc26xx_flash_bank_command h0))\<lparr>probed := True\<rparr>\<rparr>"

text \<open>The bank before it is probed.\<close>

definition bank_new :: flash_bank where
  "bank_new = \<lparr>bank_number = 0, base = 0, bank_size = 0, num_sectors = 0,
     sectors = None, driver_priv = cc26xx_flash_bank_command h0\<rparr>"

section \<open>Properties\<close>

subsection \<open>Auxiliary facts\<close>

lemmas shim_defs = log_event_def timeval_ms_def keep_alive_def LOG_ERROR_def
  target_read_buffer_def target_read_u32_def target_write_buffer_def
  target_alloc_working_area_def target_free_working_area_def target_start_algorithm_def
  target_halt_def target_wait_algorithm_def malloc_sectors_def

lemmas device_defs = h0_def layout0_def reply_ok_def env_ok_def w0_def w_running_def
  bank0_def bank_new_def sector0_def set_algo_def cc26xx_flash_bank_command_def slot_def

lemma wait_loop_terminates:
  assumes "\<forall>tr. n \<le> length tr \<longrightarrow> start + FLASH_TIMEOUT < r_ms (env tr)"
  shows "\<exists>y. wait_loop h env a start s w = Some y"
proof (induction "n - length (trace w)" arbitrary: s w rule: less_induct)
  case less
  show ?case
  proof (cases "CC26XX_BUFFER_FULL h = s")
    case False
    then show ?thesis by (subst wait_loop.simps) simp
  next
    case full: True
    let ?w1 = "log_event (Target_read_buffer a) w"
    let ?w2 = "log_event Timeval_ms ?w1"
    let ?now = "r_ms (env (trace ?w2))"
    let ?w3 = "if 500 < ?now - start then keep_alive ?w2 else ?w2"
    show ?thesis
    proof (cases "ERROR_OK \<noteq> r_retval (env (trace ?w1))")
      case True
      then show ?thesis using full
        by (subst wait_loop.simps) (simp add: target_read_buffer_def Let_def)
    next
      case ok: False
      show ?thesis
      proof (cases "FLASH_TIMEOUT < ?now - start")
        case True
        then show ?thesis using full ok
          by (subst wait_loop.simps) (simp add: target_read_buffer_def timeval_ms_def Let_def)
      next
        case False
        then have "\<not> n \<le> length (trace ?w2)"
          using assms by (metis add.commute less_diff_eq)
        then have "n - length (trace ?w3) < n - length (trace w)"
          by (auto simp: log_event_def keep_alive_def)
        from less[OF this] obtain y where
          "wait_loop h env a start (r_word (env (trace ?w1))) ?w3 = Some y" by blast
        then show ?thesis using full ok False
          by (subst wait_loop.simps) (simp add: target_read_buffer_def timeval_ms_def Let_def)
      qed
    qed
  qed
qed

lemma wait_algo_done_terminates:
  assumes "clock_advances env"
  shows "\<exists>y. cc26xx_wait_algo_done h env bank a w = Some y"
proof -
  let ?w0 = "log_event (Call_wait_algo_done a) w"
  let ?start = "fst (timeval_ms env ?w0)"
  from assms obtain n where
    "\<forall>tr. n \<le> length tr \<longrightarrow> ?start + FLASH_TIMEOUT < r_ms (env tr)"
    unfolding clock_advances_def by blast
  from wait_loop_terminates[OF this] obtain y where
    "wait_loop h env a ?start (CC26XX_BUFFER_FULL h) (snd (timeval_ms env ?w0)) = Some y"
    by blast
  then show ?thesis
    by (cases y) (auto simp: cc26xx_wait_algo_done_def split: prod.splits sum.splits)
qed

lemma wait_loop_result:
  assumes r: "wait_loop h env a start s w = Some y"
  shows "poll_result h env a s w y"
proof (rule wait_loop.raw_induct [where P = "\<lambda>h env a start s w y. poll_result h env a s w y", OF _ r])
  fix loop :: "cc26xx_h \<Rightarrow> env \<Rightarrow> u32 \<Rightarrow> int \<Rightarrow> u32 \<Rightarrow> world \<Rightarrow> ((retval + u32) \<times> world) option"
  fix h env a start s w y
  assume IH: "\<And>h env a start s w y. loop h env a start s w = Some y \<Longrightarrow> poll_result h env a s w y"
    and body: "(if CC26XX_BUFFER_FULL h = s
      then case target_read_buffer env a w of
           (retval, status', w1) \<Rightarrow>
             if ERROR_OK \<noteq> retval then Some (Inl retval, w1)
             else case timeval_ms env w1 of
                  (now, w2) \<Rightarrow>
                    let elapsed_ms = now - start;
                        w3 = if 500 < elapsed_ms then keep_alive w2 else w2
                    in if FLASH_TIMEOUT < elapsed_ms
                       then Some (Inr status', w3)
                       else loop h env a start status' w3
      else Some (Inr s, w)) = Some y"
  show "poll_result h env a s w y"
  proof (cases "CC26XX_BUFFER_FULL h = s")
    case False
    then show ?thesis using body by (auto simp: poll_result_def)
  next
    case full: True
    let ?w1 = "log_event (Target_read_buffer a) w"
    let ?w2 = "log_event Timeval_ms ?w1"
    let ?now = "r_ms (env (trace ?w2))"
    let ?w3 = "if 500 < ?now - start then keep_alive ?w2 else ?w2"
    have lr: "last_reply env (Target_read_buffer a) (trace ?w3) = Some (env (trace ?w1))"
      by (simp add: log_event_def keep_alive_def last_reply_def)
    show ?thesis
    proof (cases "ERROR_OK \<noteq> r_retval (env (trace ?w1))")
      case True
      then show ?thesis using body full
        by (auto simp: poll_result_def target_read_buffer_def Let_def log_event_def last_reply_def)
    next
      case ok: False
      show ?thesis
      proof (cases "FLASH_TIMEOUT < ?now - start")
        case True
        then have "y = (Inr (r_word (env (trace ?w1))), ?w3)"
          using body full ok by (simp add: target_read_buffer_def timeval_ms_def Let_def)
        then show ?thesis using lr ok by (simp add: poll_result_def)
      next
        case False
        then have "loop h env a start (r_word (env (trace ?w1))) ?w3 = Some y"
          using body full ok by (simp add: target_read_buffer_def timeval_ms_def Let_def)
        from IH[OF this] show ?thesis using lr ok
          by (auto simp: poll_result_def split: sum.splits)
      qed
    qed
  qed
qed

lemma poll_trace_ok_vacuous: "length T \<le> n \<Longrightarrow> poll_trace_ok env a start n T"
  by (auto simp: poll_trace_ok_def)

lemma poll_trace_ok_step:
  assumes T: "T = tw @ [Target_read_buffer a, Timeval_ms] @ ks @ evs"
    and ks: "ks = (if 500 < r_ms (env (tw @ [Target_read_buffer a, Timeval_ms])) - start then [Keep_alive] else [])"
    and evs: "evs = [] \<or> hd evs = Target_read_buffer a"
    and nt: "FLASH_TIMEOUT < r_ms (env (tw @ [Target_read_buffer a, Timeval_ms])) - start \<Longrightarrow> evs = []"
    and IH: "poll_trace_ok env a start (length tw + 2 + length ks) T"
  shows "poll_trace_ok env a start (length tw) T"
  unfolding poll_trace_ok_def
proof (intro allI impI)
  fix i assume i: "length tw \<le> i \<and> i < length T \<and> T ! i = Timeval_ms"
  let ?P = "\<lambda>i. ((500 < r_ms (env (take (Suc i) T)) - start) = (Suc i < length T \<and> T ! Suc i = Keep_alive)) \<and>
        (FLASH_TIMEOUT < r_ms (env (take (Suc i) T)) - start \<longrightarrow>
           (\<forall>j. i < j \<and> j < length T \<longrightarrow> T ! j \<noteq> Target_read_buffer a))"
  consider "i = length tw" | "i = length tw + 1" | "length tw + 2 \<le> i" "i < length tw + 2 + length ks"
    | "length tw + 2 + length ks \<le> i" using i by linarith
  then show "?P i"
  proof cases
    case 1
    then have "T ! i = Target_read_buffer a" using T by (simp add: nth_append)
    then show ?thesis using i by simp
  next
    case 2
    have tk: "take (Suc i) T = tw @ [Target_read_buffer a, Timeval_ms]"
      using T 2 by simp
    show ?thesis
    proof (cases "500 < r_ms (env (tw @ [Target_read_buffer a, Timeval_ms])) - start")
      case True
      then have ks1: "ks = [Keep_alive]" using ks by simp
      have a1: "Suc i < length T \<and> T ! Suc i = Keep_alive"
        using T 2 ks1 by (simp add: nth_append)
      have a2: "\<forall>j. i < j \<and> j < length T \<longrightarrow> T ! j \<noteq> Target_read_buffer a"
        if "FLASH_TIMEOUT < r_ms (env (tw @ [Target_read_buffer a, Timeval_ms])) - start"
      proof -
        from nt[OF that] have "T = tw @ [Target_read_buffer a, Timeval_ms, Keep_alive]"
          using T ks1 by simp
        then show ?thesis using 2 by (auto simp: nth_append)
      qed
      show ?thesis using True a1 a2 tk by simp
    next
      case False
      then have ks0: "ks = []" using ks by simp
      have nto: "\<not> FLASH_TIMEOUT < r_ms (env (tw @ [Target_read_buffer a, Timeval_ms])) - start"
        using False by (simp add: FLASH_TIMEOUT_def)
      have "\<not> (Suc i < length T \<and> T ! Suc i = Keep_alive)"
      proof (cases evs)
        case Nil
        then show ?thesis using T ks0 2 by simp
      next
        case (Cons e es)
        then have "e = Target_read_buffer a" using evs by simp
        then have "T ! Suc i = Target_read_buffer a" using T ks0 2 Cons by (simp add: nth_append)
        then show ?thesis by simp
      qed
      then show ?thesis using False nto tk by simp
    qed
  next
    case 3
    then have "ks = [Keep_alive]" "i = length tw + 2" using ks by (auto split: if_splits)
    then have "T ! i = Keep_alive" using T by (simp add: nth_append)
    then show ?thesis using i by simp
  next
    case 4
    then show ?thesis using IH i unfolding poll_trace_ok_def by blast
  qed
qed

lemma wait_loop_heartbeat:
  assumes r: "wait_loop h env a start s w = Some y"
  shows "poll_ext a w (snd y) \<and> poll_trace_ok env a start (length (trace w)) (trace (snd y))"
proof (rule wait_loop.raw_induct [where P = "\<lambda>h env a start s w y.
     poll_ext a w (snd y) \<and> poll_trace_ok env a start (length (trace w)) (trace (snd y))", OF _ r])
  fix loop :: "cc26xx_h \<Rightarrow> env \<Rightarrow> u32 \<Rightarrow> int \<Rightarrow> u32 \<Rightarrow> world \<Rightarrow> ((retval + u32) \<times> world) option"
  fix h env a start s w y
  assume IH: "\<And>h env a start s w y. loop h env a start s w = Some y \<Longrightarrow>
       poll_ext a w (snd y) \<and> poll_trace_ok env a start (length (trace w)) (trace (snd y))"
    and body: "(if CC26XX_BUFFER_FULL h = s
      then case target_read_buffer env a w of
           (retval, status', w1) \<Rightarrow>
             if ERROR_OK \<noteq> retval then Some (Inl retval, w1)
             else case timeval_ms env w1 of
                  (now, w2) \<Rightarrow>
                    let elapsed_ms = now - start;
                        w3 = if 500 < elapsed_ms then keep_alive w2 else w2
                    in if FLASH_TIMEOUT < elapsed_ms
                       then Some (Inr status', w3)
                       else loop h env a start status' w3
      else Some (Inr s, w)) = Some y"
  let ?G = "poll_ext a w (snd y) \<and> poll_trace_ok env a start (length (trace w)) (trace (snd y))"
  show ?G
  proof (cases "CC26XX_BUFFER_FULL h = s")
    case False
    then show ?thesis using body by (auto simp: poll_ext_def poll_trace_ok_def)
  next
    case full: True
    let ?t1 = "trace w @ [Target_read_buffer a]"
    let ?t2 = "trace w @ [Target_read_buffer a, Timeval_ms]"
    let ?el = "r_ms (env ?t2) - start"
    let ?ks = "if 500 < ?el then [Keep_alive] else []"
    let ?w3 = "w\<lparr>trace := ?t2 @ ?ks\<rparr>"
    show ?thesis
    proof (cases "ERROR_OK \<noteq> r_retval (env ?t1)")
      case True
      then have "snd y = w\<lparr>trace := ?t1\<rparr>" using body full
        by (auto simp: shim_defs Let_def)
      then show ?thesis
        by (auto simp: poll_ext_def poll_trace_ok_def nth_append split: if_splits)
    next
      case ok: False
      show ?thesis
      proof (cases "FLASH_TIMEOUT < ?el")
        case True
        then have y: "snd y = ?w3" using body full ok
          by (auto simp: shim_defs Let_def FLASH_TIMEOUT_def)
        have "poll_trace_ok env a start (length (trace w)) (trace (snd y))"
        proof (rule poll_trace_ok_step[where evs = "[]" and ks = "?ks"])
          show "trace (snd y) = trace w @ [Target_read_buffer a, Timeval_ms] @ ?ks @ []"
            using y by simp
          show "poll_trace_ok env a start (length (trace w) + 2 + length ?ks) (trace (snd y))"
            using y by (intro poll_trace_ok_vacuous) simp
        qed simp_all
        moreover have "poll_ext a w (snd y)" using y by (simp add: poll_ext_def)
        ultimately show ?thesis by simp
      next
        case False
        then have "loop h env a start (r_word (env ?t1)) ?w3 = Some y"
          using body full ok by (auto simp: shim_defs Let_def)
        from IH[OF this] obtain evs where
          evs: "trace (snd y) = trace ?w3 @ evs" "evs = [] \<or> hd evs = Target_read_buffer a"
          and ok3: "poll_trace_ok env a start (length (trace ?w3)) (trace (snd y))"
          unfolding poll_ext_def by blast
        have "poll_trace_ok env a start (length (trace w)) (trace (snd y))"
        proof (rule poll_trace_ok_step[where evs = evs and ks = "?ks"])
          show "trace (snd y) = trace w @ [Target_read_buffer a, Timeval_ms] @ ?ks @ evs"
            using evs by simp
          show "poll_trace_ok env a start (length (trace w) + 2 + length ?ks) (trace (snd y))"
            using ok3 by (simp add: add.commute add.left_commute)
          show "evs = [] \<or> hd evs = Target_read_buffer a" by fact
          show "evs = []" if "FLASH_TIMEOUT < ?el" using that False by simp
        qed simp
        moreover have "poll_ext a w (snd y)" using evs by (auto simp: poll_ext_def)
        ultimately show ?thesis by simp
      qed
    qed
  qed
qed


lemma poll_trace_ok_log:
  assumes "poll_trace_ok env a start n T"
  shows "poll_trace_ok env a start n (T @ [Log_error m])"
  unfolding poll_trace_ok_def
proof (intro allI impI)
  fix i assume i: "n \<le> i \<and> i < length (T @ [Log_error m]) \<and> (T @ [Log_error m]) ! i = Timeval_ms"
  then have il: "i < length T" by (cases "i = length T") (auto simp: nth_append)
  then have ti: "T ! i = Timeval_ms" using i by (simp add: nth_append)
  have tk: "take (Suc i) (T @ [Log_error m]) = take (Suc i) T" using il by simp
  have k: "(Suc i < length (T @ [Log_error m]) \<and> (T @ [Log_error m]) ! Suc i = Keep_alive)
           = (Suc i < length T \<and> T ! Suc i = Keep_alive)"
    using il by (cases "Suc i = length T") (auto simp: nth_append)
  have j: "(\<forall>j. i < j \<and> j < length (T @ [Log_error m]) \<longrightarrow> (T @ [Log_error m]) ! j \<noteq> Target_read_buffer a)"
    if "\<forall>j. i < j \<and> j < length T \<longrightarrow> T ! j \<noteq> Target_read_buffer a"
    using that by (auto simp: nth_append)
  from assms i il ti show "((500 < r_ms (env (take (Suc i) (T @ [Log_error m]))) - start) =
         (Suc i < length (T @ [Log_error m]) \<and> (T @ [Log_error m]) ! Suc i = Keep_alive)) \<and>
        (FLASH_TIMEOUT < r_ms (env (take (Suc i) (T @ [Log_error m]))) - start \<longrightarrow>
         (\<forall>j. i < j \<and> j < length (T @ [Log_error m]) \<longrightarrow> (T @ [Log_error m]) ! j \<noteq> Target_read_buffer a))"
    unfolding tk k using j unfolding poll_trace_ok_def by blast
qed

lemma wait_algo_done_result:
  assumes r: "cc26xx_wait_algo_done h env bank a w = Some (rv, w')"
  shows "poll_trace_ok env a (r_ms (env (trace w @ [Call_wait_algo_done a, Timeval_ms])))
           (length (trace w) + 2) (trace w')"
    and "\<exists>rep. last_reply env (Target_read_buffer a) (trace w') = Some rep \<and>
           (rv = ERROR_OK \<longleftrightarrow> r_retval rep = ERROR_OK \<and> r_word rep = CC26XX_BUFFER_EMPTY h) \<and>
           (r_retval rep \<noteq> ERROR_OK \<longrightarrow>
              rv = r_retval rep \<and> last (trace w') = Target_read_buffer a) \<and>
           (r_retval rep = ERROR_OK \<and> r_word rep \<noteq> CC26XX_BUFFER_EMPTY h \<longrightarrow>
              rv = ERROR_FAIL \<and>
              last (trace w') =
                Log_error (family_name (driver_priv bank) @ '': Flash operation failed''))"
proof -
  let ?t1 = "trace w @ [Call_wait_algo_done a, Timeval_ms]"
  let ?start = "r_ms (env ?t1)"
  let ?w1 = "w\<lparr>trace := ?t1\<rparr>"
  from r obtain y where
    loop: "wait_loop h env a ?start (CC26XX_BUFFER_FULL h) ?w1 = Some y"
    by (auto simp: cc26xx_wait_algo_done_def shim_defs Let_def split: option.splits)
  from r loop have fin:
    "(rv, w') = (case y of (Inl retval, w2) \<Rightarrow> (retval, w2)
        | (Inr status, w2) \<Rightarrow>
            if CC26XX_BUFFER_EMPTY h \<noteq> status
            then (ERROR_FAIL,
                  w2\<lparr>trace := trace w2 @
                    [Log_error (family_name (driver_priv bank) @ '': Flash operation failed'')]\<rparr>)
            else (ERROR_OK, w2))"
    by (cases y) (auto simp: cc26xx_wait_algo_done_def shim_defs Let_def split: sum.splits if_splits)
  from wait_loop_heartbeat[OF loop]
  have hb: "poll_trace_ok env a ?start (length (trace w) + 2) (trace (snd y))" by simp
  from wait_loop_result[OF loop] have res: "poll_result h env a (CC26XX_BUFFER_FULL h) ?w1 y" .
  show "poll_trace_ok env a ?start (length (trace w) + 2) (trace w')"
    using fin hb poll_trace_ok_log[OF hb]
    by (cases y) (auto split: sum.splits if_splits)
  show "\<exists>rep. last_reply env (Target_read_buffer a) (trace w') = Some rep \<and>
           (rv = ERROR_OK \<longleftrightarrow> r_retval rep = ERROR_OK \<and> r_word rep = CC26XX_BUFFER_EMPTY h) \<and>
           (r_retval rep \<noteq> ERROR_OK \<longrightarrow>
              rv = r_retval rep \<and> last (trace w') = Target_read_buffer a) \<and>
           (r_retval rep = ERROR_OK \<and> r_word rep \<noteq> CC26XX_BUFFER_EMPTY h \<longrightarrow>
              rv = ERROR_FAIL \<and>
              last (trace w') =
                Log_error (family_name (driver_priv bank) @ '': Flash operation failed''))"
    using fin res
    by (cases y) (auto simp: poll_result_def last_reply_def split: sum.splits if_splits)
qed

lemma clock_advances_env_stuck: "clock_advances env_stuck"
  unfolding clock_advances_def
proof
  fix t :: int
  have "\<forall>tr. nat t + 1 \<le> length tr \<longrightarrow> t < r_ms (env_stuck tr)"
    by (auto simp: env_stuck_def reply_ok_def)
  then show "\<exists>n. \<forall>tr. n \<le> length tr \<longrightarrow> t < r_ms (env_stuck tr)" by blast
qed

lemma wait_stuck_run:
  "cc26xx_wait_algo_done h0 env_stuck bank0 0x20001be4 w0 =
     Some (ERROR_FAIL,
       \<lparr>state = TARGET_HALTED,
        trace = [Call_wait_algo_done 0x20001be4, Timeval_ms, Target_read_buffer 0x20001be4,
                 Timeval_ms, Keep_alive, Log_error ''cc26xx: Flash operation failed'']\<rparr>)"
  by (simp add: cc26xx_wait_algo_done_def wait_loop.simps shim_defs device_defs env_stuck_def
      Let_def FLASH_TIMEOUT_def)

lemma polled_0: "polled h env a start pre 0 \<longleftrightarrow> \<not> polls_on h env a start pre"
  by (simp add: polled_def)

lemma polled_iff:
  "polled h env a start pre k \<longleftrightarrow>
     (\<forall>i<k. polls_on h env a start (after_rounds env a start i pre)) \<and>
     \<not> polls_on h env a start (after_rounds env a start k pre)"
  unfolding polled_def list_all_iff by auto

lemma polled_Suc:
  "polled h env a start pre (Suc k) \<longleftrightarrow>
     polls_on h env a start pre \<and> polled h env a start (poll_round env a start pre) k"
proof -
  have "(\<forall>i<Suc k. polls_on h env a start (after_rounds env a start i pre)) \<longleftrightarrow>
        polls_on h env a start pre \<and>
        (\<forall>i<k. polls_on h env a start (after_rounds env a start i (poll_round env a start pre)))"
    (is "?L \<longleftrightarrow> ?R")
  proof
    assume l: ?L
    have "polls_on h env a start (after_rounds env a start 0 pre)" using l by blast
    moreover have "polls_on h env a start (after_rounds env a start (Suc i) pre)" if "i < k" for i
      using l that by blast
    ultimately show ?R by simp
  next
    assume r: ?R
    show ?L
    proof (intro allI impI)
      fix i assume "i < Suc k"
      then show "polls_on h env a start (after_rounds env a start i pre)"
        using r by (cases i) auto
    qed
  qed
  then show ?thesis unfolding polled_iff by simp
qed

lemma wait_loop_not_full:
  "s \<noteq> CC26XX_BUFFER_FULL h \<Longrightarrow> wait_loop h env a start s w = Some (Inr s, w)"
  by (subst wait_loop.simps) auto

lemma wait_loop_step:
  "wait_loop h env a start (CC26XX_BUFFER_FULL h) w =
     (if polls_on h env a start (trace w)
      then wait_loop h env a start (CC26XX_BUFFER_FULL h)
             (w\<lparr>trace := poll_round env a start (trace w)\<rparr>)
      else Some (if r_retval (env (trace w @ [Target_read_buffer a])) \<noteq> ERROR_OK
                 then Inl (r_retval (env (trace w @ [Target_read_buffer a])))
                 else Inr (r_word (env (trace w @ [Target_read_buffer a]))),
                 w\<lparr>trace := poll_round env a start (trace w)\<rparr>))"
proof -
  let ?t1 = "trace w @ [Target_read_buffer a]"
  let ?t2 = "trace w @ [Target_read_buffer a, Timeval_ms]"
  let ?el = "r_ms (env ?t2) - start"
  show ?thesis
  proof (cases "r_retval (env ?t1) = ERROR_OK")
    case False
    then show ?thesis
      by (subst wait_loop.simps) (simp add: polls_on_def poll_round_def shim_defs Let_def)
  next
    case ok: True
    show ?thesis
    proof (cases "FLASH_TIMEOUT < ?el")
      case True
      then show ?thesis using ok
        by (subst wait_loop.simps) (simp add: polls_on_def poll_round_def shim_defs Let_def)
    next
      case nt: False
      show ?thesis
      proof (cases "r_word (env ?t1) = CC26XX_BUFFER_FULL h")
        case True
        then show ?thesis using ok nt
          by (subst wait_loop.simps) (simp add: polls_on_def poll_round_def shim_defs Let_def)
      next
        case False
        then show ?thesis using ok nt
          by (subst wait_loop.simps)
             (simp add: polls_on_def poll_round_def shim_defs Let_def wait_loop_not_full)
      qed
    qed
  qed
qed

lemma wait_loop_polled:
  "polled h env a start (trace w) k \<Longrightarrow>
   wait_loop h env a start (CC26XX_BUFFER_FULL h) w =
     Some (if r_retval (env (after_rounds env a start k (trace w) @ [Target_read_buffer a])) \<noteq> ERROR_OK
           then Inl (r_retval (env (after_rounds env a start k (trace w) @ [Target_read_buffer a])))
           else Inr (r_word (env (after_rounds env a start k (trace w) @ [Target_read_buffer a]))),
           w\<lparr>trace := poll_round env a start (after_rounds env a start k (trace w))\<rparr>)"
proof (induction k arbitrary: w)
  case 0
  then show ?case by (subst wait_loop_step) (simp add: polled_def)
next
  case (Suc k)
  then have on: "polls_on h env a start (trace w)"
    and p: "polled h env a start (trace (w\<lparr>trace := poll_round env a start (trace w)\<rparr>)) k"
    by (simp_all add: polled_Suc)
  from Suc.IH[OF p] on show ?case by (subst wait_loop_step) simp
qed

lemma wait_loop_returns:
  "\<not> polls_on h env a start (after_rounds env a start k (trace w)) \<Longrightarrow>
     \<exists>y. wait_loop h env a start (CC26XX_BUFFER_FULL h) w = Some y"
proof (induction k arbitrary: w)
  case 0
  then show ?case by (subst wait_loop_step) simp
next
  case (Suc k)
  show ?case
  proof (cases "polls_on h env a start (trace w)")
    case True
    from Suc.prems have
      "\<not> polls_on h env a start
          (after_rounds env a start k (trace (w\<lparr>trace := poll_round env a start (trace w)\<rparr>)))"
      by simp
    from Suc.IH[OF this] True show ?thesis by (subst wait_loop_step) simp
  next
    case False
    then show ?thesis by (subst wait_loop_step) simp
  qed
qed

lemma wait_loop_stops:
  assumes r: "wait_loop h env a start s w = Some y"
  shows "s = CC26XX_BUFFER_FULL h \<longrightarrow>
           (\<exists>k. \<not> polls_on h env a start (after_rounds env a start k (trace w)))"
proof (rule wait_loop.raw_induct [where P = "\<lambda>h env a start s w y.
     s = CC26XX_BUFFER_FULL h \<longrightarrow>
       (\<exists>k. \<not> polls_on h env a start (after_rounds env a start k (trace w)))", OF _ r])
  fix loop :: "cc26xx_h \<Rightarrow> env \<Rightarrow> u32 \<Rightarrow> int \<Rightarrow> u32 \<Rightarrow> world \<Rightarrow> ((retval + u32) \<times> world) option"
  fix h env a start s w y
  assume IH: "\<And>h env a start s w y. loop h env a start s w = Some y \<Longrightarrow>
       s = CC26XX_BUFFER_FULL h \<longrightarrow>
       (\<exists>k. \<not> polls_on h env a start (after_rounds env a start k (trace w)))"
    and body: "(if CC26XX_BUFFER_FULL h = s
      then case target_read_buffer env a w of
           (retval, status', w1) \<Rightarrow>
             if ERROR_OK \<noteq> retval then Some (Inl retval, w1)
             else case timeval_ms env w1 of
                  (now, w2) \<Rightarrow>
                    let elapsed_ms = now - start;
                        w3 = if 500 < elapsed_ms then keep_alive w2 else w2
                    in if FLASH_TIMEOUT < elapsed_ms
                       then Some (Inr status', w3)
                       else loop h env a start status' w3
      else Some (Inr s, w)) = Some y"
  show "s = CC26XX_BUFFER_FULL h \<longrightarrow>
       (\<exists>k. \<not> polls_on h env a start (after_rounds env a start k (trace w)))"
  proof
    assume full: "s = CC26XX_BUFFER_FULL h"
    show "\<exists>k. \<not> polls_on h env a start (after_rounds env a start k (trace w))"
    proof (cases "polls_on h env a start (trace w)")
      case False
      then have "\<not> polls_on h env a start (after_rounds env a start 0 (trace w))" by simp
      then show ?thesis by blast
    next
      case True
      then have "loop h env a start (CC26XX_BUFFER_FULL h)
                   (w\<lparr>trace := poll_round env a start (trace w)\<rparr>) = Some y"
        using body full
        by (auto simp: polls_on_def poll_round_def shim_defs Let_def split: if_splits)
      from IH[OF this] obtain k where
        "\<not> polls_on h env a start (after_rounds env a start (Suc k) (trace w))" by auto
      then show ?thesis by blast
    qed
  qed
qed

lemma polled_least:
  assumes "\<not> polls_on h env a start (after_rounds env a start k pre)"
  shows "\<exists>k. polled h env a start pre k"
proof -
  let ?P = "\<lambda>k. \<not> polls_on h env a start (after_rounds env a start k pre)"
  from assms have "?P (LEAST k. ?P k)" by (rule LeastI)
  moreover have "\<forall>i < (LEAST k. ?P k). \<not> ?P i" using not_less_Least by blast
  ultimately have "polled h env a start pre (LEAST k. ?P k)"
    unfolding polled_iff by blast
  then show ?thesis by blast
qed

lemma wait_algo_done_rounds:
  assumes r: "cc26xx_wait_algo_done h env bank a w = Some (rv, w')"
  shows "\<exists>k. polled h env a (r_ms (env (trace w @ [Call_wait_algo_done a, Timeval_ms])))
                (trace w @ [Call_wait_algo_done a, Timeval_ms]) k \<and>
              (rv, trace w') =
                poll_end h env bank a (r_ms (env (trace w @ [Call_wait_algo_done a, Timeval_ms])))
                  (after_rounds env a (r_ms (env (trace w @ [Call_wait_algo_done a, Timeval_ms]))) k
                     (trace w @ [Call_wait_algo_done a, Timeval_ms]))"
    and "state w' = state w"
proof -
  let ?t1 = "trace w @ [Call_wait_algo_done a, Timeval_ms]"
  let ?start = "r_ms (env ?t1)"
  let ?w1 = "w\<lparr>trace := ?t1\<rparr>"
  from r obtain y where
    loop: "wait_loop h env a ?start (CC26XX_BUFFER_FULL h) ?w1 = Some y"
    by (auto simp: cc26xx_wait_algo_done_def shim_defs Let_def split: option.splits)
  from r loop have fin:
    "(rv, w') = (case y of (Inl retval, w2) \<Rightarrow> (retval, w2)
        | (Inr status, w2) \<Rightarrow>
            if CC26XX_BUFFER_EMPTY h \<noteq> status
            then (ERROR_FAIL,
                  w2\<lparr>trace := trace w2 @
                    [Log_error (family_name (driver_priv bank) @ '': Flash operation failed'')]\<rparr>)
            else (ERROR_OK, w2))"
    by (cases y) (auto simp: cc26xx_wait_algo_done_def shim_defs Let_def split: sum.splits if_splits)
  from wait_loop_stops[OF loop] obtain k0 where
    "\<not> polls_on h env a ?start (after_rounds env a ?start k0 ?t1)" by auto
  from polled_least[OF this] obtain k where k: "polled h env a ?start ?t1 k" by blast
  then have "polled h env a ?start (trace ?w1) k" by simp
  from wait_loop_polled[OF this] loop
  have y: "y = (if r_retval (env (after_rounds env a ?start k ?t1 @ [Target_read_buffer a])) \<noteq> ERROR_OK
           then Inl (r_retval (env (after_rounds env a ?start k ?t1 @ [Target_read_buffer a])))
           else Inr (r_word (env (after_rounds env a ?start k ?t1 @ [Target_read_buffer a]))),
           w\<lparr>trace := poll_round env a ?start (after_rounds env a ?start k ?t1)\<rparr>)"
    by simp
  have "(rv, trace w') = poll_end h env bank a ?start (after_rounds env a ?start k ?t1)"
    using fin unfolding y by (auto simp: poll_end_def Let_def split: if_splits)
  with k show "\<exists>k. polled h env a ?start ?t1 k \<and>
              (rv, trace w') = poll_end h env bank a ?start (after_rounds env a ?start k ?t1)"
    by blast
  show "state w' = state w" using fin unfolding y by (auto split: if_splits)
qed

lemma wait_algo_done_returns:
  assumes "\<not> polls_on h env a (r_ms (env (trace w @ [Call_wait_algo_done a, Timeval_ms])))
             (after_rounds env a (r_ms (env (trace w @ [Call_wait_algo_done a, Timeval_ms]))) k
                (trace w @ [Call_wait_algo_done a, Timeval_ms]))"
  shows "\<exists>y. cc26xx_wait_algo_done h env bank a w = Some y"
proof -
  let ?t1 = "trace w @ [Call_wait_algo_done a, Timeval_ms]"
  let ?start = "r_ms (env ?t1)"
  let ?w1 = "w\<lparr>trace := ?t1\<rparr>"
  from assms have "\<not> polls_on h env a ?start (after_rounds env a ?start k (trace ?w1))" by simp
  from wait_loop_returns[OF this] obtain y where
    "wait_loop h env a ?start (CC26XX_BUFFER_FULL h) ?w1 = Some y" by blast
  then show ?thesis
    by (cases y) (auto simp: cc26xx_wait_algo_done_def shim_defs split: prod.splits sum.splits)
qed

lemma wait_busy_run:
  "cc26xx_wait_algo_done h0 env_busy bank0 0x20001be4 w0 =
     Some (ERROR_OK,
       \<lparr>state = TARGET_HALTED,
        trace = [Call_wait_algo_done 0x20001be4, Timeval_ms,
                 Target_read_buffer 0x20001be4, Timeval_ms,
                 Target_read_buffer 0x20001be4, Timeval_ms, Keep_alive,
                 Target_read_buffer 0x20001be4, Timeval_ms, Keep_alive]\<rparr>)"
  by (simp add: cc26xx_wait_algo_done_def wait_loop.simps shim_defs device_defs env_busy_def
      Let_def FLASH_TIMEOUT_def)

lemma polled_runs:
  "polled h0 env_stuck 0x20001be4 20000 [Call_wait_algo_done 0x20001be4, Timeval_ms] 0"
  "polled h0 env_busy 0x20001be4 400 [Call_wait_algo_done 0x20001be4, Timeval_ms] 2"
proof -
  show "polled h0 env_stuck 0x20001be4 20000 [Call_wait_algo_done 0x20001be4, Timeval_ms] 0"
    by (simp add: polled_0 polls_on_def env_stuck_def device_defs FLASH_TIMEOUT_def)
  have "polled h0 env_busy 0x20001be4 400 [Call_wait_algo_done 0x20001be4, Timeval_ms]
          (Suc (Suc 0))"
    by (simp add: polled_Suc polled_0 polls_on_def poll_round_def env_busy_def device_defs
          FLASH_TIMEOUT_def)
  then show "polled h0 env_busy 0x20001be4 400 [Call_wait_algo_done 0x20001be4, Timeval_ms] 2"
    by (simp only: numeral_2_eq_2)
qed


text \<open>
  C3. The wait for the helper algorithm. It returns exactly when there is a round
  after which it does not go on: a round whose read fails, or gives a status other than
  "full", or ends more than 8000 ms after the wait began; so it returns whenever the
  clock advances, whatever the status word reads (also when it reads full for ever).
  When it returns it has made exactly the rounds up to the first such round, each a
  status read, a reading of the clock and, when more than 500 ms have passed since the
  wait began, a keep-alive; a failed read ends the round and the wait at once. It
  returns \<open>ERROR_OK\<close> exactly when the last status read succeeded and gave "empty";
  the code of a failed read is returned; any other status gives \<open>ERROR_FAIL\<close> after
  an error message that begins with the family name.
\<close>

theorem wait_algo_done_policy:
  "let pre = trace w @ [Call_wait_algo_done a, Timeval_ms]; start = r_ms (env pre) in
   (clock_advances env \<longrightarrow> (\<exists>y. cc26xx_wait_algo_done h env bank a w = Some y)) \<and>
   ((\<exists>y. cc26xx_wait_algo_done h env bank a w = Some y) \<longleftrightarrow>
      (\<exists>k. \<not> polls_on h env a start (after_rounds env a start k pre))) \<and>
   (\<forall>rv w'. cc26xx_wait_algo_done h env bank a w = Some (rv, w') \<longrightarrow>
      (\<exists>k. polled h env a start pre k \<and>
           (rv, trace w') = poll_end h env bank a start (after_rounds env a start k pre)) \<and>
      state w' = state w \<and>
      poll_trace_ok env a start (length (trace w) + 2) (trace w') \<and>
      (\<exists>rep. last_reply env (Target_read_buffer a) (trace w') = Some rep \<and>
         (rv = ERROR_OK \<longleftrightarrow> r_retval rep = ERROR_OK \<and> r_word rep = CC26XX_BUFFER_EMPTY h) \<and>
         (r_retval rep \<noteq> ERROR_OK \<longrightarrow>
            rv = r_retval rep \<and> last (trace w') = Target_read_buffer a) \<and>
         (r_retval rep = ERROR_OK \<and> r_word rep \<noteq> CC26XX_BUFFER_EMPTY h \<longrightarrow>
            rv = ERROR_FAIL \<and>
            last (trace w') =
              Log_error (family_name (driver_priv bank) @ '': Flash operation failed''))))"
proof -
  let ?pre = "trace w @ [Call_wait_algo_done a, Timeval_ms]"
  let ?start = "r_ms (env ?pre)"
  have t: "clock_advances env \<longrightarrow> (\<exists>y. cc26xx_wait_algo_done h env bank a w = Some y)"
    using wait_algo_done_terminates by blast
  have e: "(\<exists>y. cc26xx_wait_algo_done h env bank a w = Some y) \<longleftrightarrow>
      (\<exists>k. \<not> polls_on h env a ?start (after_rounds env a ?start k ?pre))"
  proof
    assume "\<exists>y. cc26xx_wait_algo_done h env bank a w = Some y"
    then obtain rv w' where "cc26xx_wait_algo_done h env bank a w = Some (rv, w')" by force
    from wait_algo_done_rounds(1)[OF this]
    show "\<exists>k. \<not> polls_on h env a ?start (after_rounds env a ?start k ?pre)"
      unfolding polled_iff by blast
  next
    assume "\<exists>k. \<not> polls_on h env a ?start (after_rounds env a ?start k ?pre)"
    then show "\<exists>y. cc26xx_wait_algo_done h env bank a w = Some y"
      using wait_algo_done_returns by blast
  qed
  have r: "\<forall>rv w'. cc26xx_wait_algo_done h env bank a w = Some (rv, w') \<longrightarrow>
      (\<exists>k. polled h env a ?start ?pre k \<and>
           (rv, trace w') = poll_end h env bank a ?start (after_rounds env a ?start k ?pre)) \<and>
      state w' = state w \<and>
      poll_trace_ok env a ?start (length (trace w) + 2) (trace w') \<and>
      (\<exists>rep. last_reply env (Target_read_buffer a) (trace w') = Some rep \<and>
         (rv = ERROR_OK \<longleftrightarrow> r_retval rep = ERROR_OK \<and> r_word rep = CC26XX_BUFFER_EMPTY h) \<and>
         (r_retval rep \<noteq> ERROR_OK \<longrightarrow>
            rv = r_retval rep \<and> last (trace w') = Target_read_buffer a) \<and>
         (r_retval rep = ERROR_OK \<and> r_word rep \<noteq> CC26XX_BUFFER_EMPTY h \<longrightarrow>
            rv = ERROR_FAIL \<and>
            last (trace w') =
              Log_error (family_name (driver_priv bank) @ '': Flash operation failed'')))"
    using wait_algo_done_rounds[of h env bank a w] wait_algo_done_result[of h env bank a w]
    by blast
  show ?thesis unfolding Let_def using t e r by blast
qed

theorem wait_algo_done_policy_witness:
  "clock_advances env_stuck \<and>
   (\<exists>y. cc26xx_wait_algo_done h0 env_stuck bank0 0x20001be4 w0 = Some y) \<and>
   poll_trace_ok env_stuck 0x20001be4 20000 2
     [Call_wait_algo_done 0x20001be4, Timeval_ms, Target_read_buffer 0x20001be4,
      Timeval_ms, Keep_alive, Log_error ''cc26xx: Flash operation failed''] \<and>
   (\<exists>k. polled h0 env_stuck 0x20001be4 20000 [Call_wait_algo_done 0x20001be4, Timeval_ms] k \<and>
      (ERROR_FAIL,
       [Call_wait_algo_done 0x20001be4, Timeval_ms, Target_read_buffer 0x20001be4,
        Timeval_ms, Keep_alive, Log_error ''cc26xx: Flash operation failed'']) =
      poll_end h0 env_stuck bank0 0x20001be4 20000
        (after_rounds env_stuck 0x20001be4 20000 k
           [Call_wait_algo_done 0x20001be4, Timeval_ms])) \<and>
   polled h0 env_stuck 0x20001be4 20000 [Call_wait_algo_done 0x20001be4, Timeval_ms] 0 \<and>
   (\<exists>k. polled h0 env_busy 0x20001be4 400 [Call_wait_algo_done 0x20001be4, Timeval_ms] k \<and>
      (ERROR_OK,
       [Call_wait_algo_done 0x20001be4, Timeval_ms,
        Target_read_buffer 0x20001be4, Timeval_ms,
        Target_read_buffer 0x20001be4, Timeval_ms, Keep_alive,
        Target_read_buffer 0x20001be4, Timeval_ms, Keep_alive]) =
      poll_end h0 env_busy bank0 0x20001be4 400
        (after_rounds env_busy 0x20001be4 400 k
           [Call_wait_algo_done 0x20001be4, Timeval_ms])) \<and>
   polled h0 env_busy 0x20001be4 400 [Call_wait_algo_done 0x20001be4, Timeval_ms] 2"
proof -
  have s: "r_ms (env_stuck (trace w0 @ [Call_wait_algo_done 0x20001be4, Timeval_ms])) = 20000"
    "length (trace w0) + 2 = 2"
    "trace w0 @ [Call_wait_algo_done 0x20001be4, Timeval_ms] =
       [Call_wait_algo_done 0x20001be4, Timeval_ms]"
    "r_ms (env_busy [Call_wait_algo_done 0x20001be4, Timeval_ms]) = 400"
    "r_ms (env_stuck [Call_wait_algo_done 0x20001be4, Timeval_ms]) = 20000"
    by (simp_all add: env_stuck_def env_busy_def reply_ok_def w0_def)
  note st = wait_algo_done_policy[where w = w0 and a = "0x20001be4" and env = env_stuck
      and h = h0 and bank = bank0, unfolded Let_def s]
  note bu = wait_algo_done_policy[where w = w0 and a = "0x20001be4" and env = env_busy
      and h = h0 and bank = bank0, unfolded Let_def s]
  show ?thesis
    using st bu clock_advances_env_stuck wait_stuck_run wait_busy_run polled_runs
    by simp
qed

text \<open>
  C7. Device identity. The three functions take the identity word, the user
  configuration word and the size code and nothing else, and hand back a plain value:
  they read and change no state and have no failure value. Every input gives one of the
  five device types, one of the ten SRAM sizes of the tables and one of the two sector
  lengths. An identity that is not one of the three Chameleon codes (the Agama code or
  any unknown code) gives the Agama results: the subtype by the masked bit of the user
  configuration word, the SRAM size by the Agama table, the Agama sector length.
\<close>

theorem resolve_profile_total:
  "cc26xx_device_type h icepick uid \<in>
     {CC26X0_TYPE h, CC26X1_TYPE h, CC13X0_TYPE h, CC13X2_TYPE h, CC26X2_TYPE h} \<and>
   cc26xx_sram_size h icepick code \<in>
     {0x800, 0x1000, 0x2000, 0x4000, 0x2800, 0x5000, 0x8000, 0xc000, 0x10000, 0x14000} \<and>
   cc26xx_sector_length h icepick \<in>
     {CC26XX_CHAMELEON_SECTOR_LENGTH h, CC26XX_AGAMA_SECTOR_LENGTH h} \<and>
   (\<not> chameleon_id h icepick \<longrightarrow>
      cc26xx_device_type h icepick uid =
        (if uid AND USER_ID_CC13_MASK h \<noteq> 0 then CC13X2_TYPE h else CC26X2_TYPE h) \<and>
      cc26xx_sram_size h icepick code =
        (if code = 0 then 0x8000 else if code = 1 then 0xc000
         else if code = 2 then 0x10000 else 0x14000) \<and>
      cc26xx_sector_length h icepick = CC26XX_AGAMA_SECTOR_LENGTH h)"
  by (simp add: cc26xx_device_type_def cc26xx_sram_size_def cc26xx_sector_length_def
      chameleon_id_def Let_def)

theorem resolve_profile_total_witness:
  "\<not> chameleon_id h0 0x12345678 \<and>
   cc26xx_device_type h0 0x12345678 0x00800000 = CC13X2_TYPE h0 \<and>
   cc26xx_sram_size h0 0x12345678 5 = 0x14000 \<and>
   cc26xx_sector_length h0 0x12345678 = 0x2000"
proof -
  have n: "\<not> chameleon_id h0 0x12345678"
    by (simp add: chameleon_id_def h0_def)
  have a: "CC26XX_AGAMA_SECTOR_LENGTH h0 = 0x2000" "USER_ID_CC13_MASK h0 = 0x00800000"
    by (simp_all add: h0_def)
  show ?thesis
    using resolve_profile_total[of h0 "0x12345678" "0x00800000" 5] n
    by (simp add: a)
qed

subsection \<open>Sector tables\<close>

lemma set_is_erased_Returns:
  "set_is_erased v idxs secs = Returns secs' \<Longrightarrow>
     length secs' = length secs \<and>
     (\<forall>i\<in>set idxs. 0 \<le> i \<and> i < int (length secs)) \<and>
     (\<forall>k<length secs. secs' ! k =
        (if int k \<in> set idxs then (secs ! k)\<lparr>is_erased := v\<rparr> else secs ! k))"
proof (induction idxs arbitrary: secs)
  case Nil
  then show ?case by simp
next
  case (Cons i idxs)
  from Cons.prems have inb: "0 \<le> i" "i < int (length secs)"
    and rest: "set_is_erased v idxs (secs[nat i := (secs ! nat i)\<lparr>is_erased := v\<rparr>]) = Returns secs'"
    by (auto split: if_splits)
  from Cons.IH[OF rest] inb show ?case
    by (auto simp: nth_list_update)
qed


lemma set_is_erased_all:
  assumes "set_is_erased v [0..int (length secs) - 1] secs = Returns secs'"
  shows "secs' = map (\<lambda>s. s\<lparr>is_erased := v\<rparr>) secs"
proof (rule nth_equalityI)
  from set_is_erased_Returns[OF assms]
  have l: "length secs' = length secs"
    and n: "\<forall>k<length secs. secs' ! k =
        (if int k \<in> set [0..int (length secs) - 1] then (secs ! k)\<lparr>is_erased := v\<rparr> else secs ! k)"
    by blast+
  show "length secs' = length (map (\<lambda>s. s\<lparr>is_erased := v\<rparr>) secs)" using l by simp
  fix k assume "k < length secs'"
  then show "secs' ! k = map (\<lambda>s. s\<lparr>is_erased := v\<rparr>) secs ! k"
    using l n by auto
qed

lemma mark_sectors_all:
  assumes "sector_table_ok bank" "mark_sectors v 0 (num_sectors bank - 1) bank = Returns bank'"
  shows "bank' = bank\<lparr>sectors := map_option (map (\<lambda>s. s\<lparr>is_erased := v\<rparr>)) (sectors bank)\<rparr>"
proof (cases "sectors bank")
  case None
  then show ?thesis using assms by (simp add: mark_sectors_def)
next
  case (Some secs)
  then have n: "num_sectors bank = int (length secs)" using assms(1) by (simp add: sector_table_ok_def)
  from assms(2) Some n obtain secs' where
    s: "set_is_erased v [0..int (length secs) - 1] secs = Returns secs'" and b: "bank' = bank\<lparr>sectors := Some secs'\<rparr>"
    by (auto simp: mark_sectors_def split: outcome.splits)
  from set_is_erased_all[OF s] b Some show ?thesis by simp
qed


lemma mark_sectors_range:
  assumes "mark_sectors v lo hi bank = Returns bank'" "sectors bank = Some secs"
  shows "\<exists>secs'. bank' = bank\<lparr>sectors := Some secs'\<rparr> \<and> length secs' = length secs \<and>
      (lo \<le> hi \<longrightarrow> 0 \<le> lo \<and> hi < int (length secs)) \<and>
      (\<forall>k<length secs. secs' ! k =
        (if lo \<le> int k \<and> int k \<le> hi then (secs ! k)\<lparr>is_erased := v\<rparr> else secs ! k))"
proof -
  from assms obtain secs' where
    s: "set_is_erased v [lo..hi] secs = Returns secs'" and b: "bank' = bank\<lparr>sectors := Some secs'\<rparr>"
    by (auto simp: mark_sectors_def split: outcome.splits)
  from set_is_erased_Returns[OF s] b show ?thesis by auto
qed

lemma probe_success:
  assumes "cc26xx_probe h env w bank = (ERROR_OK, w', bank')"
  shows "sectors bank' =
       Some (new_sectors
         (min (unat (r_word (env (trace w @
            [Target_read_u32 (FCFG1_ICEPICK_ID h), Target_read_u32 (FCFG1_USER_ID h),
             Target_read_u32 (CC26XX_SRAM_SIZE_INFO h),
             Target_read_u32 (CC26XX_FLASH_SIZE_INFO h)])) AND 0xff))
            (CC26XX_MAX_SECTOR_COUNT h))
         (cc26xx_sector_length h (icepick_id (driver_priv bank'))))"
    and "num_sectors bank' = int (length (the (sectors bank')))"
    and "icepick_id (driver_priv bank') =
           r_word (env (trace w @ [Target_read_u32 (FCFG1_ICEPICK_ID h)]))"
    and "sram_size (driver_priv bank') =
           cc26xx_sram_size h (icepick_id (driver_priv bank'))
             (r_word (env (trace w @
                [Target_read_u32 (FCFG1_ICEPICK_ID h), Target_read_u32 (FCFG1_USER_ID h),
                 Target_read_u32 (CC26XX_SRAM_SIZE_INFO h)])))"
    and "sector_length (driver_priv bank') =
           cc26xx_sector_length h (icepick_id (driver_priv bank'))"
    and "probed (driver_priv bank')" and "bank_number bank' = bank_number bank"
    and "state w = TARGET_HALTED"
  using assms
  by (auto simp: cc26xx_probe_def shim_defs Let_def set_algo_def new_sectors_def min_def
      split: if_splits)







lemma auto_probe_success:
  assumes "cc26xx_auto_probe h env w bank = (ERROR_OK, w', bank')" "sector_table_ok bank"
  shows "sector_table_ok bank'" and "bank_number bank' = 0" and "bank_number bank = 0"
    and "probed (driver_priv bank) \<Longrightarrow> bank' = bank \<and> w' = w"
    and "\<not> probed (driver_priv bank) \<Longrightarrow> cc26xx_probe h env w bank = (ERROR_OK, w', bank')"
  using assms probe_success(1,2,7)[of h env w bank w' bank']
  by (auto simp: cc26xx_auto_probe_def sector_table_ok_def split: if_splits)

lemma with_area_simps [simp]:
  "sectors (with_area a bank) = sectors bank"
  "num_sectors (with_area a bank) = num_sectors bank"
  "bank_number (with_area a bank) = bank_number bank"
  "base (with_area a bank) = base bank"
  "sector_table_ok (with_area a bank) = sector_table_ok bank"
  "erase_states (with_area a bank) = erase_states bank"
  "sector_length (driver_priv (with_area a bank)) = sector_length (driver_priv bank)"
  "algo_buffer (driver_priv (with_area a bank)) = algo_buffer (driver_priv bank)"
  "algo_params (driver_priv (with_area a bank)) = algo_params (driver_priv bank)"
  "algo_status (driver_priv (with_area a bank)) = algo_status (driver_priv bank)"
  "probed (driver_priv (with_area a bank)) = probed (driver_priv bank)"
  "with_area a (with_area b bank) = with_area a bank"
  by (auto simp: with_area_def sector_table_ok_def erase_states_def split: option.splits)

lemma quit_bank: "snd (snd (cc26xx_quit env w bank)) = with_area None bank"
  by (simp add: cc26xx_quit_def with_area_def Let_def split: prod.splits)

lemma init_cases:
  assumes "cc26xx_init h env w bank = Returns (rv, w1, b1)"
  shows "(rv \<noteq> ERROR_OK \<and>
           (\<exists>r0 w0 b0. cc26xx_auto_probe h env w bank = (r0, w0, b0) \<and>
              (b1 = b0 \<or> (r0 = ERROR_OK \<and> b1 = with_area (Some (r_word (env (trace w1)))) b0)
                 \<or> (r0 = ERROR_OK \<and> b1 = with_area (Some (CC26XX_ALGO_BASE_ADDRESS h)) b0)))) \<or>
         (rv = ERROR_OK \<and>
           (\<exists>w0 b0. cc26xx_auto_probe h env w bank = (ERROR_OK, w0, b0) \<and>
              mark_sectors (- 1) 0 (num_sectors b0 - 1)
                (with_area (Some (CC26XX_ALGO_BASE_ADDRESS h)) b0) = Returns b1))"
proof -
  obtain r0 w0 b0 where ap: "cc26xx_auto_probe h env w bank = (r0, w0, b0)"
    by (cases "cc26xx_auto_probe h env w bank") auto
  show ?thesis
    using assms unfolding cc26xx_init_def ap
    by (auto simp: shim_defs Let_def with_area_def split: if_splits outcome.splits)
qed

lemma init_success:
  assumes "cc26xx_init h env w bank = Returns (ERROR_OK, w1, b1)" "sector_table_ok bank"
  shows "sector_table_ok b1" and "list_all (\<lambda>e. e = - 1) (erase_states b1)"
    and "bank_number bank = 0"
    and "probed (driver_priv bank) \<Longrightarrow>
           b1 = (with_area (Some (CC26XX_ALGO_BASE_ADDRESS h)) bank)
                  \<lparr>sectors := map_option (map (\<lambda>s. s\<lparr>is_erased := - 1\<rparr>)) (sectors bank)\<rparr>"
proof -
  from init_cases[OF assms(1)] obtain w0 b0 where
    ap: "cc26xx_auto_probe h env w bank = (ERROR_OK, w0, b0)" and
    mk: "mark_sectors (- 1) 0 (num_sectors b0 - 1)
           (with_area (Some (CC26XX_ALGO_BASE_ADDRESS h)) b0) = Returns b1"
    by auto
  note a = auto_probe_success[OF ap assms(2)]
  let ?b2 = "with_area (Some (CC26XX_ALGO_BASE_ADDRESS h)) b0"
  have ok2: "sector_table_ok ?b2" using a(1) by simp
  from mark_sectors_all[OF ok2] mk
  have b1: "b1 = ?b2\<lparr>sectors := map_option (map (\<lambda>s. s\<lparr>is_erased := - 1\<rparr>)) (sectors ?b2)\<rparr>"
    by simp
  show "sector_table_ok b1" using ok2 unfolding b1
    by (auto simp: sector_table_ok_def split: option.splits)
  show "list_all (\<lambda>e. e = - 1) (erase_states b1)" unfolding b1
    by (auto simp: erase_states_def list_all_iff split: option.splits)
  show "bank_number bank = 0" by (rule a(3))
  show "b1 = (with_area (Some (CC26XX_ALGO_BASE_ADDRESS h)) bank)
                  \<lparr>sectors := map_option (map (\<lambda>s. s\<lparr>is_erased := - 1\<rparr>)) (sectors bank)\<rparr>"
    if "probed (driver_priv bank)"
    using a(4)[OF that] b1 by simp
qed




lemma quit_eq:
  "cc26xx_quit env w bank =
     (r_retval (env (trace w @ [Call_quit, Target_halt, Target_wait_algorithm FLASH_TIMEOUT])),
      w\<lparr>trace := trace w @ [Call_quit, Target_halt, Target_wait_algorithm FLASH_TIMEOUT,
                              Target_free_working_area (working_area (driver_priv bank))]\<rparr>,
      with_area None bank)"
  by (simp add: cc26xx_quit_def shim_defs with_area_def Let_def)

lemma mass_erase_cases:
  assumes "cc26xx_mass_erase h env w bank = Some (Returns (rv, w', bank'))"
  shows "(state w \<noteq> TARGET_HALTED \<and> rv = ERROR_TARGET_NOT_HALTED \<and> bank' = bank \<and>
            w' = LOG_ERROR ''Target not halted'' w) \<or>
         (state w = TARGET_HALTED \<and> rv \<noteq> ERROR_OK \<and>
            cc26xx_init h env w bank = Returns (rv, w', bank')) \<or>
         (state w = TARGET_HALTED \<and>
            (\<exists>w1 b1. cc26xx_init h env w bank = Returns (ERROR_OK, w1, b1) \<and>
               (if rv = ERROR_OK
                then mark_sectors 1 0 (num_sectors b1 - 1) (with_area None b1) = Returns bank'
                else bank' = with_area None b1)))"
proof (cases "state w = TARGET_HALTED")
  case False
  then show ?thesis using assms by (simp add: cc26xx_mass_erase_def)
next
  case halted: True
  show ?thesis
  proof (cases "cc26xx_init h env w bank")
    case (Fault f)
    then show ?thesis using assms halted by (simp add: cc26xx_mass_erase_def)
  next
    case (Returns r)
    obtain r1 w1 b1 where r: "r = (r1, w1, b1)" by (cases r) auto
    show ?thesis
    proof (cases "r1 = ERROR_OK")
      case False
      then show ?thesis using assms halted Returns r
        by (auto simp: cc26xx_mass_erase_def)
    next
      case True
      from assms halted Returns r True obtain rm w4 where
        fin: "(if ERROR_OK = rm
               then (case mark_sectors 1 0 (num_sectors (with_area None b1) - 1)
                            (with_area None b1) of
                       Fault f \<Rightarrow> Some (Fault f)
                     | Returns bank3 \<Rightarrow> Some (Returns (rm, w4, bank3)))
               else Some (Returns (rm, w4, with_area None b1)))
              = Some (Returns (rv, w', bank'))"
        by (auto simp: cc26xx_mass_erase_def Let_def quit_eq split: prod.splits option.splits)
      then show ?thesis using halted Returns r True
        by (auto split: if_splits outcome.splits)
    qed
  qed
qed

lemma erase_range_cases:
  assumes "cc26xx_erase_range h env w bank first last_s = Some (Returns (rv, w', bank'))"
  shows "(rv \<noteq> ERROR_OK \<and> cc26xx_init h env w bank = Returns (rv, w', bank')) \<or>
         (\<exists>w1 b1. cc26xx_init h env w bank = Returns (ERROR_OK, w1, b1) \<and>
            ((rv \<noteq> ERROR_OK \<and> bank' = b1) \<or>
             (if rv = ERROR_OK
              then mark_sectors 1 first last_s (with_area None b1) = Returns bank'
              else bank' = with_area None b1)))"
proof (cases "cc26xx_init h env w bank")
  case (Fault f)
  then show ?thesis using assms by (simp add: cc26xx_erase_range_def)
next
  case (Returns r)
  obtain r1 w1 b1 where r: "r = (r1, w1, b1)" by (cases r) auto
  show ?thesis
  proof (cases "r1 = ERROR_OK")
    case False
    then show ?thesis using assms Returns r
      by (auto simp: cc26xx_erase_range_def)
  next
    case True
    from assms Returns r True have
      "(rv \<noteq> ERROR_OK \<and> bank' = b1) \<or>
       (\<exists>rm w4. (if ERROR_OK = rm
               then (case mark_sectors 1 first last_s (with_area None b1) of
                       Fault f \<Rightarrow> Some (Fault f)
                     | Returns bank3 \<Rightarrow> Some (Returns (rm, w4, bank3)))
               else Some (Returns (rm, w4, with_area None b1)))
              = Some (Returns (rv, w', bank')))"
      unfolding cc26xx_erase_range_def
      by (simp add: Let_def quit_eq split: prod.splits option.splits if_split_asm) blast+
    then show ?thesis using Returns r True
      by (auto split: if_splits outcome.splits)
  qed
qed


lemma write_cases:
  assumes "cc26xx_write h env w bank buffer offs count = Some (Returns (rv, w', bank'))"
  shows "(state w \<noteq> TARGET_HALTED \<and> rv = ERROR_TARGET_NOT_HALTED \<and> bank' = bank \<and>
            w' = LOG_ERROR ''Target not halted'' w) \<or>
         (state w = TARGET_HALTED \<and> rv \<noteq> ERROR_OK \<and>
            cc26xx_init h env w bank = Returns (rv, w', bank')) \<or>
         (state w = TARGET_HALTED \<and>
            (\<exists>w1 b1. cc26xx_init h env w bank = Returns (ERROR_OK, w1, b1) \<and>
               (if rv = ERROR_OK
                then (case sectors b1 of
                        None \<Rightarrow> bank' = with_area None b1
                      | Some secs \<Rightarrow>
                          (\<exists>secs'. mark_not_erased (sector_length (driver_priv b1))
                                      (end_address offs count) offs secs = Some (Returns secs') \<and>
                             bank' = (with_area None b1)\<lparr>sectors := Some secs'\<rparr>))
                else bank' = with_area None b1)))"
proof (cases "state w = TARGET_HALTED")
  case False
  then show ?thesis using assms by (simp add: cc26xx_write_def)
next
  case halted: True
  show ?thesis
  proof (cases "cc26xx_init h env w bank")
    case (Fault f)
    then show ?thesis using assms halted by (simp add: cc26xx_write_def)
  next
    case (Returns r)
    obtain r1 w1 b1 where r: "r = (r1, w1, b1)" by (cases r) auto
    show ?thesis
    proof (cases "r1 = ERROR_OK")
      case False
      then show ?thesis using assms halted Returns r
        by (auto simp: cc26xx_write_def)
    next
      case True
      from assms halted Returns r True obtain rm w4 where
        fin: "(if ERROR_OK = rm
               then (case sectors (with_area None b1) of
                       None \<Rightarrow> Some (Returns (rm, w4, with_area None b1))
                     | Some secs \<Rightarrow>
                        (case mark_not_erased (sector_length (driver_priv b1))
                                (end_address offs count) offs secs of
                           None \<Rightarrow> None
                         | Some (Fault f) \<Rightarrow> Some (Fault f)
                         | Some (Returns secs') \<Rightarrow>
                             Some (Returns (rm, w4, (with_area None b1)\<lparr>sectors := Some secs'\<rparr>))))
               else Some (Returns (rm, w4, with_area None b1)))
              = Some (Returns (rv, w', bank'))"
        by (auto simp: cc26xx_write_def Let_def quit_eq timeval_ms_def split: prod.splits option.splits)
      then show ?thesis using halted Returns r True
        by (auto split: if_splits outcome.splits option.splits)
    qed
  qed
qed

lemmas run_defs = cc26xx_erase_def cc26xx_erase_range_def cc26xx_mass_erase_def cc26xx_write_def
  cc26xx_init_def cc26xx_auto_probe_def cc26xx_wait_algo_done_def quit_eq
  mark_sectors_def erase_loop.simps write_loop.simps wait_loop.simps mark_not_erased.simps
  end_address_def with_area_def returned_def returned_trace_def erase_states_def
  FLASH_TIMEOUT_def Let_def upto.simps

lemma erase_1_1_run:
  "returned (cc26xx_erase h0 env_ok w0 bank0 1 1) = Some (ERROR_OK, [- 1, 1, - 1, - 1])"
  by (simp add: run_defs shim_defs device_defs)

lemma erase_range_full_run:
  "returned (cc26xx_erase_range h0 env_ok w0 bank0 0 3) = Some (ERROR_OK, [1, 1, 1, 1])"
  by (simp add: run_defs shim_defs device_defs)

lemma mass_erase_run:
  "returned (cc26xx_mass_erase h0 env_ok w0 bank0) = Some (ERROR_OK, [1, 1, 1, 1])"
  by (simp add: run_defs shim_defs device_defs)


lemma write_unaligned_run:
  "returned (cc26xx_write h0 env_ok w0 bank0 [1, 2] 0xfff 2) = Some (ERROR_OK, [0, - 1, - 1, - 1])"
  by (simp add: run_defs shim_defs device_defs)

lemma bank0_ok: "sector_table_ok bank0" "probed (driver_priv bank0)" "bank_number bank0 = 0"
  "erase_states bank0 = [1, 0, 1, 0]" "num_sectors bank0 = 4"
  by (simp_all add: sector_table_ok_def erase_states_def device_defs)


lemma returned_Some:
  "returned r = Some (rv, es) \<Longrightarrow> \<exists>w b. r = Some (Returns (rv, w, b)) \<and> erase_states b = es"
  by (auto simp: returned_def split: option.splits outcome.splits)

lemma erase_is_erase_range:
  assumes "cc26xx_erase h env w bank first last_s = Some (Returns (ERROR_OK, w', bank'))"
    and "\<not> (bank_number bank = 0 \<and> first = 0 \<and> last_s = num_sectors bank - 1)"
  shows "cc26xx_erase_range h env w bank first last_s = Some (Returns (ERROR_OK, w', bank'))"
  using assms by (auto simp: cc26xx_erase_def split: if_splits)

text \<open>
  C5, as amended. After a successful erase of sectors \<open>first\<close> to \<open>last_s\<close> that is
  not the whole of bank 0, every sector in the range reads erased (1) and every sector
  outside it reads unknown (-1): \<open>cc26xx_init\<close> has reset the whole table to unknown
  before the range is marked. The range lies inside the table. On a bank that was
  probed before the call nothing else in a sector changes.
\<close>

theorem erase_marks_range:
  assumes "cc26xx_erase h env w bank first last_s = Some (Returns (ERROR_OK, w', bank'))"
    and "\<not> (bank_number bank = 0 \<and> first = 0 \<and> last_s = num_sectors bank - 1)"
    and "sector_table_ok bank"
  shows "(\<forall>k < length (erase_states bank').
            erase_states bank' ! k = (if first \<le> int k \<and> int k \<le> last_s then 1 else - 1)) \<and>
         (sectors bank' \<noteq> None \<and> first \<le> last_s \<longrightarrow>
            0 \<le> first \<and> last_s < int (length (erase_states bank'))) \<and>
         (probed (driver_priv bank) \<longrightarrow>
            (\<forall>secs. sectors bank = Some secs \<longrightarrow>
               (\<exists>secs'. sectors bank' = Some secs' \<and> length secs' = length secs \<and>
                  (\<forall>k < length secs. secs' ! k =
                     (secs ! k)\<lparr>is_erased :=
                        if first \<le> int k \<and> int k \<le> last_s then 1 else - 1\<rparr>))))"
proof -
  from erase_range_cases[OF erase_is_erase_range[OF assms(1,2)]] obtain w1 b1 where
    init: "cc26xx_init h env w bank = Returns (ERROR_OK, w1, b1)" and
    mk: "mark_sectors 1 first last_s (with_area None b1) = Returns bank'"
    by auto
  note i = init_success[OF init assms(3)]
  show ?thesis
  proof (cases "sectors b1")
    case None
    then have b: "bank' = with_area None b1" using mk by (simp add: mark_sectors_def)
    have "sectors bank = None" if "probed (driver_priv bank)"
      using i(4)[OF that] None by simp
    then show ?thesis using b None by (auto simp: erase_states_def)
  next
    case (Some secs1)
    then have s1: "sectors (with_area None b1) = Some secs1" by simp
    from mark_sectors_range[OF mk s1] obtain secs' where
      b: "bank' = (with_area None b1)\<lparr>sectors := Some secs'\<rparr>" and
      l: "length secs' = length secs1" and
      r: "first \<le> last_s \<longrightarrow> 0 \<le> first \<and> last_s < int (length secs1)" and
      n: "\<forall>k<length secs1. secs' ! k =
        (if first \<le> int k \<and> int k \<le> last_s then (secs1 ! k)\<lparr>is_erased := 1\<rparr> else secs1 ! k)"
      by blast
    have u: "\<forall>k<length secs1. is_erased (secs1 ! k) = - 1"
      using i(2) Some by (simp add: erase_states_def list_all_length)
    have c1: "\<forall>k < length (erase_states bank').
            erase_states bank' ! k = (if first \<le> int k \<and> int k \<le> last_s then 1 else - 1)"
      using b l n u by (simp add: erase_states_def)
    have c2: "sectors bank' \<noteq> None \<and> first \<le> last_s \<longrightarrow>
            0 \<le> first \<and> last_s < int (length (erase_states bank'))"
      using b l r by (simp add: erase_states_def)
    have c3: "\<exists>secs''. sectors bank' = Some secs'' \<and> length secs'' = length secs \<and>
                  (\<forall>k < length secs. secs'' ! k =
                     (secs ! k)\<lparr>is_erased :=
                        if first \<le> int k \<and> int k \<le> last_s then 1 else - 1\<rparr>)"
      if p: "probed (driver_priv bank)" and s: "sectors bank = Some secs" for secs
    proof -
      from i(4)[OF p] s Some have s1: "secs1 = map (\<lambda>s. s\<lparr>is_erased := - 1\<rparr>) secs" by simp
      show ?thesis using b l n unfolding s1 by auto
    qed
    show ?thesis using c1 c2 c3 by blast
  qed
qed

theorem erase_marks_range_witness:
  "\<exists>w' bank'. cc26xx_erase h0 env_ok w0 bank0 1 1 = Some (Returns (ERROR_OK, w', bank')) \<and>
     erase_states bank' = [- 1, 1, - 1, - 1] \<and>
     (\<forall>k < length (erase_states bank').
        erase_states bank' ! k = (if 1 \<le> int k \<and> int k \<le> 1 then 1 else - 1))"
proof -
  from returned_Some[OF erase_1_1_run] obtain w' bank' where
    r: "cc26xx_erase h0 env_ok w0 bank0 1 1 = Some (Returns (ERROR_OK, w', bank'))"
    and e: "erase_states bank' = [- 1, 1, - 1, - 1]" by blast
  have n: "\<not> (bank_number bank0 = 0 \<and> (1::int) = 0 \<and> (1::int) = num_sectors bank0 - 1)" by simp
  from erase_marks_range[OF r n bank0_ok(1)] r e show ?thesis by blast
qed

theorem erase_resets_other_sectors:
  "returned (cc26xx_erase h0 env_ok w0 bank0 1 1) = Some (ERROR_OK, [- 1, 1, - 1, - 1]) \<and>
   erase_states bank0 = [1, 0, 1, 0] \<and> bank_number bank0 = 0 \<and> num_sectors bank0 = 4"
  using erase_1_1_run bank0_ok by simp







text \<open>
  C8. An erase of sectors 0 to \<open>num_sectors - 1\<close> on bank 0 is the mass erase: the two
  calls are equal, whatever the target does. On a probed bank, when the mass erase
  succeeds and the sector by sector path run over the same full range succeeds (in any
  environment), the two leave the same bank, with every sector erased.
\<close>

theorem full_range_erase_is_mass_erase:
  "(bank_number bank = 0 \<longrightarrow>
      cc26xx_erase h env w bank 0 (num_sectors bank - 1) = cc26xx_mass_erase h env w bank) \<and>
   (sector_table_ok bank \<and> probed (driver_priv bank) \<and>
    cc26xx_mass_erase h env w bank = Some (Returns (ERROR_OK, w1, b1)) \<and>
    cc26xx_erase_range h env' v bank 0 (num_sectors bank - 1) =
      Some (Returns (ERROR_OK, w2, b2)) \<longrightarrow>
      b1 = b2 \<and> list_all (\<lambda>e. e = 1) (erase_states b1) \<and>
      length (erase_states b1) = length (erase_states bank))"
proof (intro conjI impI)
  assume "bank_number bank = 0"
  then show "cc26xx_erase h env w bank 0 (num_sectors bank - 1) = cc26xx_mass_erase h env w bank"
    by (simp add: cc26xx_erase_def cc26xx_mass_erase_def)
next
  assume a: "sector_table_ok bank \<and> probed (driver_priv bank) \<and>
    cc26xx_mass_erase h env w bank = Some (Returns (ERROR_OK, w1, b1)) \<and>
    cc26xx_erase_range h env' v bank 0 (num_sectors bank - 1) =
      Some (Returns (ERROR_OK, w2, b2))"
  let ?b = "(with_area (Some (CC26XX_ALGO_BASE_ADDRESS h)) bank)
                  \<lparr>sectors := map_option (map (\<lambda>s. s\<lparr>is_erased := - 1\<rparr>)) (sectors bank)\<rparr>"
  from a have ok: "sector_table_ok bank" and p: "probed (driver_priv bank)" by simp_all
  from a mass_erase_cases[of h env w bank ERROR_OK w1 b1] obtain x1 y1 where
    i1: "cc26xx_init h env w bank = Returns (ERROR_OK, x1, y1)" and
    m1: "mark_sectors 1 0 (num_sectors y1 - 1) (with_area None y1) = Returns b1"
    by auto
  from a erase_range_cases[of h env' v bank 0 "num_sectors bank - 1" ERROR_OK w2 b2] obtain x2 y2 where
    i2: "cc26xx_init h env' v bank = Returns (ERROR_OK, x2, y2)" and
    m2: "mark_sectors 1 0 (num_sectors bank - 1) (with_area None y2) = Returns b2"
    by auto
  have y1: "y1 = ?b" using init_success(4)[OF i1 ok p] .
  have y2: "y2 = ?b" using init_success(4)[OF i2 ok p] .
  have n: "num_sectors ?b = num_sectors bank" by (simp add: with_area_def)
  have okb: "sector_table_ok (with_area None ?b)"
    using init_success(1)[OF i1 ok] y1 by simp
  from m1 m2 show "b1 = b2" unfolding y1 y2 n by simp
  from m1 mark_sectors_all[OF okb, of 1 b1]
  have b1: "b1 = (with_area None ?b)
       \<lparr>sectors := map_option (map (\<lambda>s. s\<lparr>is_erased := 1\<rparr>)) (sectors (with_area None ?b))\<rparr>"
    unfolding y1 n by simp
  show "list_all (\<lambda>e. e = 1) (erase_states b1)"
    by (subst b1) (auto simp: erase_states_def list_all_iff with_area_def split: option.splits)
  show "length (erase_states b1) = length (erase_states bank)"
    by (subst b1) (auto simp: erase_states_def with_area_def split: option.splits)
qed

theorem full_range_erase_is_mass_erase_witness:
  "cc26xx_erase h0 env_ok w0 bank0 0 3 = cc26xx_mass_erase h0 env_ok w0 bank0 \<and>
   (\<exists>w1 b1 w2. cc26xx_mass_erase h0 env_ok w0 bank0 = Some (Returns (ERROR_OK, w1, b1)) \<and>
      cc26xx_erase_range h0 env_ok w0 bank0 0 3 = Some (Returns (ERROR_OK, w2, b1)) \<and>
      erase_states b1 = [1, 1, 1, 1])"
proof -
  from returned_Some[OF mass_erase_run] obtain w1 b1 where
    r1: "cc26xx_mass_erase h0 env_ok w0 bank0 = Some (Returns (ERROR_OK, w1, b1))"
    and e1: "erase_states b1 = [1, 1, 1, 1]" by blast
  from returned_Some[OF erase_range_full_run] obtain w2 b2 where
    r2: "cc26xx_erase_range h0 env_ok w0 bank0 0 3 = Some (Returns (ERROR_OK, w2, b2))" by blast
  have n: "num_sectors bank0 - 1 = 3" using bank0_ok(5) by simp
  from full_range_erase_is_mass_erase[of bank0 h0 env_ok w0 w1 b1 env_ok w0 w2 b2]
    r1 r2 e1 bank0_ok(1,2,3)
  show ?thesis unfolding n by auto
qed

text \<open>
  C4 does not hold of the code. A write of two bytes at offset 0xfff, with sectors of
  0x1000 bytes, covers the last byte of sector 0 and the first byte of sector 1. The
  marking loop starts at the offset and steps by a sector length, so it tests 0xfff and
  then 0x1fff, which is past the end address 0x1000: sector 0 is marked not erased (0)
  and sector 1 is left at unknown (-1), as \<open>cc26xx_init\<close> set it.
\<close>

theorem write_unaligned_misses_sector:
  "returned (cc26xx_write h0 env_ok w0 bank0 [1, 2] 0xfff 2) =
     Some (ERROR_OK, [0, - 1, - 1, - 1]) \<and>
   map offset (the (sectors bank0)) = [0, 0x1000, 0x2000, 0x3000] \<and>
   map sector_size (the (sectors bank0)) = [0x1000, 0x1000, 0x1000, 0x1000] \<and>
   end_address 0xfff 2 = 0x1000"
  using write_unaligned_run by (simp add: device_defs end_address_def)















lemma silent_quit_of: "silent_poll quit_of" "silent_init quit_of"
  by (simp_all add: silent_poll_def silent_init_def quit_of_def)

lemma silent_handshake_of: "silent_poll handshake_of" "silent_init handshake_of"
  by (simp_all add: silent_poll_def silent_init_def)

lemma wait_loop_proj:
  assumes g: "silent_poll g"
  assumes r: "wait_loop h env a start s w = Some y"
  shows "concat (map g (trace (snd y))) = concat (map g (trace w))"
proof (rule wait_loop.raw_induct
    [where P = "\<lambda>h env a start s w y. concat (map g (trace (snd y))) = concat (map g (trace w))", OF _ r])
  fix loop :: "cc26xx_h \<Rightarrow> env \<Rightarrow> u32 \<Rightarrow> int \<Rightarrow> u32 \<Rightarrow> world \<Rightarrow> ((retval + u32) \<times> world) option"
  fix h env a start s w y
  assume IH: "\<And>h env a start s w y. loop h env a start s w = Some y \<Longrightarrow>
      concat (map g (trace (snd y))) = concat (map g (trace w))"
    and body: "(if CC26XX_BUFFER_FULL h = s
      then case target_read_buffer env a w of
           (retval, status', w1) \<Rightarrow>
             if ERROR_OK \<noteq> retval then Some (Inl retval, w1)
             else case timeval_ms env w1 of
                  (now, w2) \<Rightarrow>
                    let elapsed_ms = now - start;
                        w3 = if 500 < elapsed_ms then keep_alive w2 else w2
                    in if FLASH_TIMEOUT < elapsed_ms
                       then Some (Inr status', w3)
                       else loop h env a start status' w3
      else Some (Inr s, w)) = Some y"
  show "concat (map g (trace (snd y))) = concat (map g (trace w))"
    using body g
    by (auto simp: shim_defs Let_def silent_poll_def split: if_splits dest!: IH)
qed

lemma wait_algo_done_proj:
  assumes g: "silent_poll g"
  assumes r: "cc26xx_wait_algo_done h env bank a w = Some (rv, w')"
  shows "concat (map g (trace w')) = concat (map g (trace w)) @ g (Call_wait_algo_done a)"
  using r g wait_loop_proj[OF g, of h env a _ "CC26XX_BUFFER_FULL h"]
  by (fastforce simp: cc26xx_wait_algo_done_def shim_defs Let_def silent_poll_def
      split: option.splits sum.splits if_splits prod.splits)

lemma probe_proj:
  assumes g: "silent_init g" and r: "cc26xx_probe h env w bank = (rv, w', bank')"
  shows "concat (map g (trace w')) = concat (map g (trace w))"
  using r g
  by (auto simp: cc26xx_probe_def shim_defs Let_def silent_init_def split: if_splits)

lemma init_proj:
  assumes g: "silent_init g" and r: "cc26xx_init h env w bank = Returns (rv, w', bank')"
  shows "concat (map g (trace w')) = concat (map g (trace w))"
proof -
  obtain r0 w0 b0 where ap: "cc26xx_auto_probe h env w bank = (r0, w0, b0)"
    by (cases "cc26xx_auto_probe h env w bank") auto
  have p: "concat (map g (trace w0)) = concat (map g (trace w))"
    using ap probe_proj[OF g, of h env w bank r0 w0 b0]
    by (auto simp: cc26xx_auto_probe_def split: if_splits)
  show ?thesis
    using r g p unfolding cc26xx_init_def ap
    by (auto simp: shim_defs Let_def silent_init_def split: if_splits outcome.splits)
qed

lemma quit_proj:
  "concat (map g (trace (fst (snd (cc26xx_quit env w bank))))) =
     concat (map g (trace w)) @ g Call_quit @ g Target_halt @
       g (Target_wait_algorithm FLASH_TIMEOUT) @
       g (Target_free_working_area (working_area (driver_priv bank)))"
  by (simp add: quit_eq)

lemma write_buffer_quit:
  "target_write_buffer env a p w = (r, w') \<Longrightarrow>
     concat (map quit_of (trace w')) = concat (map quit_of (trace w))"
  by (auto simp: shim_defs quit_of_def)

lemma wait_quit:
  "cc26xx_wait_algo_done h env bank a w = Some (rv, w') \<Longrightarrow>
     concat (map quit_of (trace w')) = concat (map quit_of (trace w))"
  using wait_algo_done_proj[OF silent_quit_of(1), of h env bank a w rv w']
  by (simp add: quit_of_def)

lemma erase_loop_quit:
  "erase_loop h env bank last_s i index w = Some (rv, idx, w') \<Longrightarrow>
     concat (map quit_of (trace w')) = concat (map quit_of (trace w))"
proof (induction "nat (last_s + 1 - i)" arbitrary: i index w)
  case 0
  then have "\<not> i \<le> last_s" by simp
  then show ?case using "0.prems" by (subst (asm) erase_loop.simps) simp
next
  case (Suc n)
  then have le: "i \<le> last_s" by simp
  let ?priv = "driver_priv bank"
  let ?p = "\<lparr>p_address = base bank + of_int i * sector_length ?priv,
             p_length = 4, p_command = CC26XX_CMD_ERASE_AND_PROGRAM h,
             p_status = CC26XX_BUFFER_FULL h,
             p_buffer = slot (algo_buffer ?priv) index\<rparr>"
  obtain r1 w1 where wb: "target_write_buffer env (slot (algo_params ?priv) index) (Params ?p) w = (r1, w1)"
    by (cases "target_write_buffer env (slot (algo_params ?priv) index) (Params ?p) w") auto
  note q1 = write_buffer_quit[OF wb]
  show ?case
  proof (cases "ERROR_OK \<noteq> r1")
    case True
    then have "w' = w1" using Suc.prems le wb
      by (subst (asm) erase_loop.simps) (simp add: Let_def)
    then show ?thesis using q1 by simp
  next
    case ok1: False
    show ?thesis
    proof (cases "cc26xx_wait_algo_done h env bank (slot (algo_status ?priv) (index XOR 1)) w1")
      case None
      then show ?thesis using Suc.prems le wb ok1
        by (subst (asm) erase_loop.simps) (simp add: Let_def)
    next
      case (Some y)
      obtain r2 w2 where y: "y = (r2, w2)" by (cases y) auto
      note q2 = wait_quit[OF Some[unfolded y]]
      show ?thesis
      proof (cases "ERROR_OK \<noteq> r2")
        case True
        then have "w' = w2" using Suc.prems le wb ok1 Some y
          by (subst (asm) erase_loop.simps) (simp add: Let_def)
        then show ?thesis using q1 q2 by simp
      next
        case False
        then have rec: "erase_loop h env bank last_s (i + 1) (index XOR 1) w2 = Some (rv, idx, w')"
          using Suc.prems le wb ok1 Some y
          by (subst (asm) erase_loop.simps) (simp add: Let_def)
        have "n = nat (last_s + 1 - (i + 1))" using Suc.hyps(2) by simp
        from Suc.hyps(1)[OF this rec] q1 q2 show ?thesis by simp
      qed
    qed
  qed
qed

lemma write_loop_quit:
  assumes r: "write_loop h env bank start count buffer address index w = Some y"
  shows "concat (map quit_of (trace (snd (snd y)))) = concat (map quit_of (trace w))"
proof (rule write_loop.raw_induct
    [where P = "\<lambda>h env bank start count buffer address index w y.
       concat (map quit_of (trace (snd (snd y)))) = concat (map quit_of (trace w))", OF _ r])
  fix loop :: "cc26xx_h \<Rightarrow> env \<Rightarrow> flash_bank \<Rightarrow> int \<Rightarrow> u32 \<Rightarrow> u8 list \<Rightarrow> u32 \<Rightarrow> u32 \<Rightarrow> world \<Rightarrow>
     (retval \<times> u32 \<times> world) option"
  fix h env bank start count buffer address index w y
  assume IH: "\<And>h env bank start count buffer address index w y.
      loop h env bank start count buffer address index w = Some y \<Longrightarrow>
      concat (map quit_of (trace (snd (snd y)))) = concat (map quit_of (trace w))"
    and body: "(if 0 < count
      then let priv = driver_priv bank;
               sz = if sector_length priv < count then sector_length priv else count
           in case target_write_buffer env (slot (algo_buffer priv) index)
                    (Data (take (unat sz) buffer)) w of
              (retval, w1) \<Rightarrow>
                if ERROR_OK \<noteq> retval
                then Some (retval, index,
                       LOG_ERROR ''Unable to write data to target memory'' w1)
                else let p = \<lparr>p_address = address, p_length = sz,
                                p_command = CC26XX_CMD_PROGRAM h,
                                p_status = CC26XX_BUFFER_FULL h,
                                p_buffer = slot (algo_buffer priv) index\<rparr>
                     in case target_write_buffer env (slot (algo_params priv) index)
                              (Params p) w1 of
                        (retval, w2) \<Rightarrow>
                          if ERROR_OK \<noteq> retval then Some (retval, index, w2)
                          else case cc26xx_wait_algo_done h env bank
                                      (slot (algo_status priv) (index XOR 1)) w2 of
                               None \<Rightarrow> None
                               | Some (retval, w3) \<Rightarrow>
                                   if ERROR_OK \<noteq> retval
                                   then Some (retval, index XOR 1, w3)
                                   else case timeval_ms env w3 of
                                        (now, w4) \<Rightarrow>
                                          let elapsed_ms = now - start;
                                              w5 = if 500 < elapsed_ms then keep_alive w4 else w4
                                          in loop h env bank start (count - sz)
                                               (drop (unat sz) buffer) (address + sz)
                                               (index XOR 1) w5
      else Some (ERROR_OK, index, w)) = Some y"
  show "concat (map quit_of (trace (snd (snd y)))) = concat (map quit_of (trace w))"
  proof (cases "0 < count")
    case False
    then show ?thesis using body by auto
  next
    case True
    let ?priv = "driver_priv bank"
    let ?sz = "if sector_length ?priv < count then sector_length ?priv else count"
    obtain r1 w1 where wb1: "target_write_buffer env (slot (algo_buffer ?priv) index)
                    (Data (take (unat ?sz) buffer)) w = (r1, w1)"
      by (cases "target_write_buffer env (slot (algo_buffer ?priv) index)
                    (Data (take (unat ?sz) buffer)) w") auto
    note q1 = write_buffer_quit[OF wb1]
    let ?p = "\<lparr>p_address = address, p_length = ?sz,
                                p_command = CC26XX_CMD_PROGRAM h,
                                p_status = CC26XX_BUFFER_FULL h,
                                p_buffer = slot (algo_buffer ?priv) index\<rparr>"
    obtain r2 w2 where wb2: "target_write_buffer env (slot (algo_params ?priv) index)
                              (Params ?p) w1 = (r2, w2)"
      by (cases "target_write_buffer env (slot (algo_params ?priv) index)
                              (Params ?p) w1") auto
    note q2 = write_buffer_quit[OF wb2]
    show ?thesis
    proof (cases "ERROR_OK \<noteq> r1")
      case True
      then have "snd (snd y) = LOG_ERROR ''Unable to write data to target memory'' w1"
        using body \<open>0 < count\<close> wb1 by (auto simp: Let_def)
      then show ?thesis using q1 by (simp add: shim_defs quit_of_def)
    next
      case ok1: False
      show ?thesis
      proof (cases "ERROR_OK \<noteq> r2")
        case True
        then have "snd (snd y) = w2"
          using body \<open>0 < count\<close> wb1 wb2 ok1 by (auto simp: Let_def)
        then show ?thesis using q1 q2 by simp
      next
        case ok2: False
        show ?thesis
        proof (cases "cc26xx_wait_algo_done h env bank (slot (algo_status ?priv) (index XOR 1)) w2")
          case None
          then show ?thesis using body \<open>0 < count\<close> wb1 wb2 ok1 ok2 by (auto simp: Let_def)
        next
          case (Some z)
          obtain r3 w3 where z: "z = (r3, w3)" by (cases z) auto
          note q3 = wait_quit[OF Some[unfolded z]]
          show ?thesis
          proof (cases "ERROR_OK \<noteq> r3")
            case True
            then have "snd (snd y) = w3"
              using body \<open>0 < count\<close> wb1 wb2 ok1 ok2 Some z by (auto simp: Let_def)
            then show ?thesis using q1 q2 q3 by simp
          next
            case False
            let ?w4 = "log_event Timeval_ms w3"
            let ?w5 = "if 500 < r_ms (env (trace ?w4)) - start then keep_alive ?w4 else ?w4"
            have "loop h env bank start (count - ?sz) (drop (unat ?sz) buffer) (address + ?sz)
                    (index XOR 1) ?w5 = Some y"
              using body \<open>0 < count\<close> wb1 wb2 ok1 ok2 Some z False
              by (simp add: Let_def timeval_ms_def)
            from IH[OF this] have "concat (map quit_of (trace (snd (snd y)))) =
                concat (map quit_of (trace ?w5))" .
            also have "\<dots> = concat (map quit_of (trace w3))"
              by (simp add: shim_defs quit_of_def)
            finally show ?thesis using q1 q2 q3 by simp
          qed
        qed
      qed
    qed
  qed
qed

lemma mass_erase_steps:
  assumes ret: "cc26xx_mass_erase h env w bank = Some (Returns (rv, w', bank'))"
    and halted: "state w = TARGET_HALTED"
    and init: "cc26xx_init h env w bank = Returns (ERROR_OK, w1, b1)"
  shows "\<exists>p rw w2 w3.
     target_write_buffer env (slot (algo_params (driver_priv b1)) 0) (Params p) w1 = (rw, w2) \<and>
     (if ERROR_OK = rw
      then cc26xx_wait_algo_done h env b1 (slot (algo_status (driver_priv b1)) 0) w2
      else Some (rw, w2)) = Some (rv, w3) \<and>
     w' = fst (snd (cc26xx_quit env w3 b1))"
proof -
  let ?p = "\<lparr>p_address = 0, p_length = 4, p_command = CC26XX_CMD_ERASE_ALL h,
             p_status = CC26XX_BUFFER_FULL h,
             p_buffer = slot (algo_buffer (driver_priv b1)) 0\<rparr>"
  obtain rw w2 where
    wb: "target_write_buffer env (slot (algo_params (driver_priv b1)) 0) (Params ?p) w1 = (rw, w2)"
    by (cases "target_write_buffer env (slot (algo_params (driver_priv b1)) 0) (Params ?p) w1") auto
  from ret halted obtain w3 where
    "(if ERROR_OK = rw
      then cc26xx_wait_algo_done h env b1 (slot (algo_status (driver_priv b1)) 0) w2
      else Some (rw, w2)) = Some (rv, w3)"
    "w' = fst (snd (cc26xx_quit env w3 b1))"
    unfolding cc26xx_mass_erase_def init
    by (cases "ERROR_OK = rw")
       (auto simp: Let_def wb split: prod.splits option.splits if_splits outcome.splits)
  with wb show ?thesis by blast
qed

lemma erase_range_steps:
  assumes ret: "cc26xx_erase_range h env w bank first last_s = Some (Returns (rv, w', bank'))"
    and init: "cc26xx_init h env w bank = Returns (ERROR_OK, w1, b1)"
    and pr: "erase_buffers_written env w1 b1 first last_s"
  shows "\<exists>w3 rl idx w4 w5.
     trace w3 = trace w1 @
       [Target_write_buffer (slot (algo_buffer (driver_priv b1)) 0) (Word32 0xffffffff)] @
       (if last_s - first > 0
        then [Target_write_buffer (slot (algo_buffer (driver_priv b1)) 1) (Word32 0xffffffff)]
        else []) \<and>
     erase_loop h env b1 last_s first 0 w3 = Some (rl, idx, w4) \<and>
     (if ERROR_OK = rl
      then cc26xx_wait_algo_done h env b1 (slot (algo_status (driver_priv b1)) (idx XOR 1)) w4
      else Some (rl, w4)) = Some (rv, w5) \<and>
     w' = fst (snd (cc26xx_quit env w5 b1))"
proof -
  let ?b0 = "slot (algo_buffer (driver_priv b1)) 0"
  let ?b1 = "slot (algo_buffer (driver_priv b1)) 1"
  let ?w2 = "w1\<lparr>trace := trace w1 @ [Target_write_buffer ?b0 (Word32 0xffffffff)]\<rparr>"
  let ?w3 = "if last_s - first > 0
             then ?w2\<lparr>trace := trace ?w2 @ [Target_write_buffer ?b1 (Word32 0xffffffff)]\<rparr>
             else ?w2"
  from pr have p1: "target_write_buffer env ?b0 (Word32 0xffffffff) w1 = (ERROR_OK, ?w2)"
    and p2: "last_s - first > 0 \<Longrightarrow>
       target_write_buffer env ?b1 (Word32 0xffffffff) ?w2 =
         (ERROR_OK, ?w2\<lparr>trace := trace ?w2 @ [Target_write_buffer ?b1 (Word32 0xffffffff)]\<rparr>)"
    by (auto simp: erase_buffers_written_def shim_defs Let_def)
  have p3: "(if last_s - first > 0
            then target_write_buffer env ?b1 (Word32 0xffffffff) ?w2
            else (ERROR_OK, ?w2)) = (ERROR_OK, ?w3)"
    using p2 by simp
  from ret have ret': "(case erase_loop h env b1 last_s first 0 ?w3 of
        None \<Rightarrow> None
      | Some (retval, index, w4) \<Rightarrow>
     (case (if ERROR_OK = retval
            then cc26xx_wait_algo_done h env b1
                   (slot (algo_status (driver_priv b1)) (index XOR 1)) w4
            else Some (retval, w4)) of
        None \<Rightarrow> None
      | Some (retval, w5) \<Rightarrow>
     (case cc26xx_quit env w5 b1 of
        (_, w6, bank2) \<Rightarrow>
      if ERROR_OK = retval then
        (case mark_sectors 1 first last_s bank2 of
           Fault f \<Rightarrow> Some (Fault f)
         | Returns bank3 \<Rightarrow> Some (Returns (retval, w6, bank3)))
      else Some (Returns (retval, w6, bank2))))) = Some (Returns (rv, w', bank'))"
    unfolding cc26xx_erase_range_def init
    by (simp only: outcome.case prod.case retval.simps if_False simp_thms Let_def p1 p3 not_False_eq_True not_not refl)
  then obtain rl idx w4 where
    lp: "erase_loop h env b1 last_s first 0 ?w3 = Some (rl, idx, w4)"
    by (cases "erase_loop h env b1 last_s first 0 ?w3") auto
  from ret' obtain w5 where
    "(if ERROR_OK = rl
      then cc26xx_wait_algo_done h env b1 (slot (algo_status (driver_priv b1)) (idx XOR 1)) w4
      else Some (rl, w4)) = Some (rv, w5)"
    "w' = fst (snd (cc26xx_quit env w5 b1))"
    unfolding lp
    by (cases "ERROR_OK = rl")
       (auto split: prod.splits option.splits if_splits outcome.splits)
  note rest = lp this
  have "trace ?w3 = trace w1 @ [Target_write_buffer ?b0 (Word32 0xffffffff)] @
       (if last_s - first > 0 then [Target_write_buffer ?b1 (Word32 0xffffffff)] else [])"
    by simp
  then show ?thesis using rest by blast
qed

lemma write_steps:
  assumes ret: "cc26xx_write h env w bank buffer offs count = Some (Returns (rv, w', bank'))"
    and halted: "state w = TARGET_HALTED"
    and init: "cc26xx_init h env w bank = Returns (ERROR_OK, w1, b1)"
  shows "\<exists>rl idx w3 w4.
     write_loop h env b1 (r_ms (env (trace w1 @ [Timeval_ms]))) count buffer (base b1 + offs) 0
       (w1\<lparr>trace := trace w1 @ [Timeval_ms]\<rparr>) = Some (rl, idx, w3) \<and>
     (if ERROR_OK = rl
      then cc26xx_wait_algo_done h env b1 (slot (algo_status (driver_priv b1)) (idx XOR 1)) w3
      else Some (rl, w3)) = Some (rv, w4) \<and>
     w' = fst (snd (cc26xx_quit env w4 b1))"
proof -
  let ?w2 = "w1\<lparr>trace := trace w1 @ [Timeval_ms]\<rparr>"
  let ?loop = "write_loop h env b1 (r_ms (env (trace w1 @ [Timeval_ms]))) count buffer
                 (base b1 + offs) 0 ?w2"
  from ret halted obtain rl idx w3 where lp: "?loop = Some (rl, idx, w3)"
    unfolding cc26xx_write_def init
    by (cases ?loop) (auto simp: Let_def timeval_ms_def log_event_def)
  from ret halted obtain w4 where
    "(if ERROR_OK = rl
      then cc26xx_wait_algo_done h env b1 (slot (algo_status (driver_priv b1)) (idx XOR 1)) w3
      else Some (rl, w3)) = Some (rv, w4)"
    "w' = fst (snd (cc26xx_quit env w4 b1))"
    unfolding cc26xx_write_def init
    by (cases "ERROR_OK = rl")
       (auto simp: Let_def timeval_ms_def log_event_def lp
          split: prod.splits option.splits if_splits outcome.splits)
  with lp show ?thesis by blast
qed

lemma quit_calls_quit:
  "quit_calls (trace (fst (snd (cc26xx_quit env w bank)))) = quit_calls (trace w) + 1"
  by (simp add: quit_eq quit_calls_def quit_of_def)

lemma quit_calls_eq:
  "concat (map quit_of tr') = concat (map quit_of tr) \<Longrightarrow> quit_calls tr' = quit_calls tr"
  by (simp add: quit_calls_def)

lemma init_quit_calls:
  "cc26xx_init h env w bank = Returns (rv, w', bank') \<Longrightarrow> quit_calls (trace w') = quit_calls (trace w)"
  using init_proj[OF silent_quit_of(2)] by (rule quit_calls_eq)

lemma mid_quit_calls:
  assumes "(if ERROR_OK = rl then cc26xx_wait_algo_done h env b a w else Some (rl, w)) = Some (rv, w')"
  shows "quit_calls (trace w') = quit_calls (trace w)"
  using assms wait_quit[of h env b a w rv w', THEN quit_calls_eq]
  by (auto split: if_splits)

lemma mass_erase_quit:
  assumes "cc26xx_mass_erase h env w bank = Some (Returns (rv, w', bank'))"
  shows "quit_calls (trace w') = quit_calls (trace w) + (if started h env w bank then 1 else 0)"
proof (cases "started h env w bank")
  case True
  then obtain w1 b1 where h: "state w = TARGET_HALTED"
    and i: "cc26xx_init h env w bank = Returns (ERROR_OK, w1, b1)"
    by (auto simp: started_def)
  from mass_erase_steps[OF assms h i] obtain p rw w2 w3 where
    wb: "target_write_buffer env (slot (algo_params (driver_priv b1)) 0) (Params p) w1 = (rw, w2)"
    and mid: "(if ERROR_OK = rw
      then cc26xx_wait_algo_done h env b1 (slot (algo_status (driver_priv b1)) 0) w2
      else Some (rw, w2)) = Some (rv, w3)"
    and w': "w' = fst (snd (cc26xx_quit env w3 b1))" by blast
  show ?thesis
    using True init_quit_calls[OF i] write_buffer_quit[OF wb, THEN quit_calls_eq]
      mid_quit_calls[OF mid] quit_calls_quit[of env w3 b1] w'
    by simp
next
  case False
  from mass_erase_cases[OF assms] False
  have "w' = LOG_ERROR ''Target not halted'' w \<or> cc26xx_init h env w bank = Returns (rv, w', bank')"
    by (auto simp: started_def)
  then show ?thesis using False init_quit_calls[of h env w bank rv w' bank']
    by (auto simp: shim_defs quit_calls_def quit_of_def)
qed

lemma write_quit:
  assumes "cc26xx_write h env w bank buffer offs count = Some (Returns (rv, w', bank'))"
  shows "quit_calls (trace w') = quit_calls (trace w) + (if started h env w bank then 1 else 0)"
proof (cases "started h env w bank")
  case True
  then obtain w1 b1 where h: "state w = TARGET_HALTED"
    and i: "cc26xx_init h env w bank = Returns (ERROR_OK, w1, b1)"
    by (auto simp: started_def)
  from write_steps[OF assms h i] obtain rl idx w3 w4 where
    lp: "write_loop h env b1 (r_ms (env (trace w1 @ [Timeval_ms]))) count buffer (base b1 + offs) 0
       (w1\<lparr>trace := trace w1 @ [Timeval_ms]\<rparr>) = Some (rl, idx, w3)"
    and mid: "(if ERROR_OK = rl
      then cc26xx_wait_algo_done h env b1 (slot (algo_status (driver_priv b1)) (idx XOR 1)) w3
      else Some (rl, w3)) = Some (rv, w4)"
    and w': "w' = fst (snd (cc26xx_quit env w4 b1))" by blast
  have "quit_calls (trace w3) = quit_calls (trace w1)"
    using write_loop_quit[OF lp, THEN quit_calls_eq] by (simp add: quit_calls_def quit_of_def)
  then show ?thesis
    using True init_quit_calls[OF i] mid_quit_calls[OF mid] quit_calls_quit[of env w4 b1] w'
    by simp
next
  case False
  from write_cases[OF assms] False
  have "w' = LOG_ERROR ''Target not halted'' w \<or> cc26xx_init h env w bank = Returns (rv, w', bank')"
    by (auto simp: started_def)
  then show ?thesis using False init_quit_calls[of h env w bank rv w' bank']
    by (auto simp: shim_defs quit_calls_def quit_of_def)
qed

lemma erase_range_quit:
  assumes "cc26xx_erase_range h env w bank first last_s = Some (Returns (rv, w', bank'))"
  shows "(\<forall>w1 b1. cc26xx_init h env w bank \<noteq> Returns (ERROR_OK, w1, b1)) \<Longrightarrow>
           quit_calls (trace w') = quit_calls (trace w)"
    and "cc26xx_init h env w bank = Returns (ERROR_OK, w1, b1) \<Longrightarrow>
         erase_buffers_written env w1 b1 first last_s \<Longrightarrow>
           quit_calls (trace w') = quit_calls (trace w) + 1"
proof -
  assume "\<forall>w1 b1. cc26xx_init h env w bank \<noteq> Returns (ERROR_OK, w1, b1)"
  with erase_range_cases[OF assms]
  have "cc26xx_init h env w bank = Returns (rv, w', bank')" by auto
  then show "quit_calls (trace w') = quit_calls (trace w)" by (rule init_quit_calls)
next
  assume i: "cc26xx_init h env w bank = Returns (ERROR_OK, w1, b1)"
    and pr: "erase_buffers_written env w1 b1 first last_s"
  from erase_range_steps[OF assms i pr] obtain w3 rl idx w4 w5 where
    t3: "trace w3 = trace w1 @
       [Target_write_buffer (slot (algo_buffer (driver_priv b1)) 0) (Word32 0xffffffff)] @
       (if last_s - first > 0
        then [Target_write_buffer (slot (algo_buffer (driver_priv b1)) 1) (Word32 0xffffffff)]
        else [])"
    and lp: "erase_loop h env b1 last_s first 0 w3 = Some (rl, idx, w4)"
    and mid: "(if ERROR_OK = rl
      then cc26xx_wait_algo_done h env b1 (slot (algo_status (driver_priv b1)) (idx XOR 1)) w4
      else Some (rl, w4)) = Some (rv, w5)"
    and w': "w' = fst (snd (cc26xx_quit env w5 b1))" by blast
  have "quit_calls (trace w3) = quit_calls (trace w1)"
    unfolding t3 by (simp add: quit_calls_def quit_of_def)
  then show "quit_calls (trace w') = quit_calls (trace w) + 1"
    using init_quit_calls[OF i] erase_loop_quit[OF lp, THEN quit_calls_eq]
      mid_quit_calls[OF mid] quit_calls_quit[of env w5 b1] w'
    by simp
qed

lemma returned_trace_Some:
  "returned_trace r = Some tr \<Longrightarrow> \<exists>rv w b. r = Some (Returns (rv, w, b)) \<and> trace w = tr"
  by (auto simp: returned_trace_def split: option.splits outcome.splits)

lemma init_run:
  "cc26xx_init h0 env_ok w0 bank0 =
     Returns (ERROR_OK,
       \<lparr>state = TARGET_HALTED,
        trace = [Target_alloc_working_area 0x6c00, Target_write_buffer 0x20000000 (Code [0x70, 0x47]),
                 Target_start_algorithm 0x20000001]\<rparr>,
       (with_area (Some 0x20000000) bank0)
         \<lparr>sectors := Some [sector0 0 (- 1), sector0 1 (- 1), sector0 2 (- 1), sector0 3 (- 1)]\<rparr>)"
  by (simp add: run_defs shim_defs device_defs)

lemma started_run: "started h0 env_ok w0 bank0"
  unfolding started_def using init_run by (simp add: w0_def)

lemma written_run:
  "erase_buffers_written env_ok
     \<lparr>state = TARGET_HALTED,
        trace = [Target_alloc_working_area 0x6c00, Target_write_buffer 0x20000000 (Code [0x70, 0x47]),
                 Target_start_algorithm 0x20000001]\<rparr>
     ((with_area (Some 0x20000000) bank0)
         \<lparr>sectors := Some [sector0 0 (- 1), sector0 1 (- 1), sector0 2 (- 1), sector0 3 (- 1)]\<rparr>) 1 1"
  by (simp add: erase_buffers_written_def shim_defs device_defs with_area_def)

lemma quit_runs:
  "returned_trace (cc26xx_erase h0 env_ok w_running bank0 1 1) = Some [Log_error ''Target not halted'']"
  "returned_trace (cc26xx_erase h0 env_word_fail w0 bank0 1 1) =
     Some [Target_alloc_working_area 0x6c00, Target_write_buffer 0x20000000 (Code [0x70, 0x47]),
           Target_start_algorithm 0x20000001, Target_write_buffer 0x20001c00 (Word32 0xffffffff)]"
  by (simp_all add: run_defs shim_defs device_defs env_word_fail_def)

text \<open>
  C1, as amended. A call has started the helper algorithm when the target was halted and
  \<open>cc26xx_init\<close> succeeded. Mass erase and programming call \<open>cc26xx_quit\<close> exactly
  once when they have started the algorithm, on every path by which they return, and
  not at all otherwise. Sector erase does not call it when it has not started the
  algorithm, and calls it exactly once when it has and either hands over to mass erase
  or has written the all-ones word into the buffers.
\<close>

theorem quit_called_once:
  "(cc26xx_mass_erase h env w bank = Some (Returns (rv, w', bank')) \<longrightarrow>
      quit_calls (trace w') = quit_calls (trace w) + (if started h env w bank then 1 else 0)) \<and>
   (cc26xx_write h env w bank buffer offs count = Some (Returns (rv, w', bank')) \<longrightarrow>
      quit_calls (trace w') = quit_calls (trace w) + (if started h env w bank then 1 else 0)) \<and>
   (cc26xx_erase h env w bank first last_s = Some (Returns (rv, w', bank')) \<longrightarrow>
      (\<not> started h env w bank \<longrightarrow> quit_calls (trace w') = quit_calls (trace w)) \<and>
      (\<forall>w1 b1. state w = TARGET_HALTED \<and>
          cc26xx_init h env w bank = Returns (ERROR_OK, w1, b1) \<and>
          ((0 = bank_number bank \<and> first = 0 \<and> last_s = num_sectors bank - 1) \<or>
           erase_buffers_written env w1 b1 first last_s) \<longrightarrow>
          quit_calls (trace w') = quit_calls (trace w) + 1))"
proof (intro conjI impI allI)
  assume "cc26xx_mass_erase h env w bank = Some (Returns (rv, w', bank'))"
  then show "quit_calls (trace w') = quit_calls (trace w) + (if started h env w bank then 1 else 0)"
    by (rule mass_erase_quit)
next
  assume "cc26xx_write h env w bank buffer offs count = Some (Returns (rv, w', bank'))"
  then show "quit_calls (trace w') = quit_calls (trace w) + (if started h env w bank then 1 else 0)"
    by (rule write_quit)
next
  assume e: "cc26xx_erase h env w bank first last_s = Some (Returns (rv, w', bank'))"
    and ns: "\<not> started h env w bank"
  show "quit_calls (trace w') = quit_calls (trace w)"
  proof (cases "state w = TARGET_HALTED")
    case False
    then show ?thesis using e
      by (auto simp: cc26xx_erase_def shim_defs quit_calls_def quit_of_def)
  next
    case True
    then have ni: "\<forall>w1 b1. cc26xx_init h env w bank \<noteq> Returns (ERROR_OK, w1, b1)"
      using ns by (simp add: started_def)
    show ?thesis
    proof (cases "0 = bank_number bank \<and> first = 0 \<and> last_s = num_sectors bank - 1")
      case d: True
      then have "cc26xx_mass_erase h env w bank = Some (Returns (rv, w', bank'))"
        using e True by (auto simp: cc26xx_erase_def split: if_splits)
      from mass_erase_quit[OF this] ns show ?thesis by simp
    next
      case False
      then have "cc26xx_erase_range h env w bank first last_s = Some (Returns (rv, w', bank'))"
        using e True by (auto simp: cc26xx_erase_def split: if_splits)
      from erase_range_quit(1)[OF this ni] show ?thesis .
    qed
  qed
next
  fix w1 b1
  assume e: "cc26xx_erase h env w bank first last_s = Some (Returns (rv, w', bank'))"
    and a: "state w = TARGET_HALTED \<and>
          cc26xx_init h env w bank = Returns (ERROR_OK, w1, b1) \<and>
          ((0 = bank_number bank \<and> first = 0 \<and> last_s = num_sectors bank - 1) \<or>
           erase_buffers_written env w1 b1 first last_s)"
  then have st: "started h env w bank" by (auto simp: started_def)
  show "quit_calls (trace w') = quit_calls (trace w) + 1"
  proof (cases "0 = bank_number bank \<and> first = 0 \<and> last_s = num_sectors bank - 1")
    case True
    then have "cc26xx_mass_erase h env w bank = Some (Returns (rv, w', bank'))"
      using e a by (auto simp: cc26xx_erase_def split: if_splits)
    from mass_erase_quit[OF this] st show ?thesis by simp
  next
    case False
    then have r: "cc26xx_erase_range h env w bank first last_s = Some (Returns (rv, w', bank'))"
      using e a by (auto simp: cc26xx_erase_def split: if_splits)
    from False a have "erase_buffers_written env w1 b1 first last_s" by blast
    from erase_range_quit(2)[OF r _ this] a show ?thesis by blast
  qed
qed

theorem quit_called_once_witness:
  "(\<exists>w' bank'. cc26xx_mass_erase h0 env_ok w0 bank0 = Some (Returns (ERROR_OK, w', bank')) \<and>
      quit_calls (trace w') = 1) \<and>
   (\<exists>w' bank'. cc26xx_write h0 env_ok w0 bank0 [1, 2] 0xfff 2 =
        Some (Returns (ERROR_OK, w', bank')) \<and>
      quit_calls (trace w') = 1) \<and>
   (\<exists>w' bank'. cc26xx_erase h0 env_ok w0 bank0 1 1 = Some (Returns (ERROR_OK, w', bank')) \<and>
      quit_calls (trace w') = 1)"
proof -
  have q0: "quit_calls (trace w0) = 0" by (simp add: w0_def quit_calls_def)
  have h0: "state w0 = TARGET_HALTED" by (simp add: w0_def)
  from returned_Some[OF mass_erase_run] obtain wm bm where
    m: "cc26xx_mass_erase h0 env_ok w0 bank0 = Some (Returns (ERROR_OK, wm, bm))" by blast
  from returned_Some[OF write_unaligned_run] obtain ww bw where
    w: "cc26xx_write h0 env_ok w0 bank0 [1, 2] 0xfff 2 = Some (Returns (ERROR_OK, ww, bw))" by blast
  from returned_Some[OF erase_1_1_run] obtain we be where
    e: "cc26xx_erase h0 env_ok w0 bank0 1 1 = Some (Returns (ERROR_OK, we, be))" by blast
  have "quit_calls (trace wm) = 1"
    using quit_called_once[of h0 env_ok w0 bank0 ERROR_OK wm bm] m started_run q0 by simp
  moreover have "quit_calls (trace ww) = 1"
    using quit_called_once[of h0 env_ok w0 bank0 ERROR_OK ww bw "[1, 2]" "0xfff" 2] w started_run q0
    by simp
  moreover have "quit_calls (trace we) = 1"
    using quit_called_once[of h0 env_ok w0 bank0 ERROR_OK we be _ _ _ 1 1] e init_run written_run h0 q0
    by simp
  ultimately show ?thesis using m w e by blast
qed

theorem erase_not_halted_skips_quit:
  "returned_trace (cc26xx_erase h0 env_ok w_running bank0 1 1) =
     Some [Log_error ''Target not halted''] \<and>
   quit_calls [Log_error ''Target not halted''] = 0"
  using quit_runs(1) by (simp add: quit_calls_def quit_of_def)

text \<open>
  The path that the amended statement leaves out: when a write of the all-ones word
  fails, \<open>cc26xx_erase\<close> returns at once. The helper algorithm has been started and
  \<open>cc26xx_quit\<close> is not called.
\<close>

lemma erase_buffer_write_failure_skips_quit:
  "returned_trace (cc26xx_erase h0 env_word_fail w0 bank0 1 1) =
     Some [Target_alloc_working_area 0x6c00, Target_write_buffer 0x20000000 (Code [0x70, 0x47]),
           Target_start_algorithm 0x20000001, Target_write_buffer 0x20001c00 (Word32 0xffffffff)] \<and>
   quit_calls [Target_alloc_working_area 0x6c00, Target_write_buffer 0x20000000 (Code [0x70, 0x47]),
           Target_start_algorithm 0x20000001, Target_write_buffer 0x20001c00 (Word32 0xffffffff)] = 0"
  using quit_runs(2) by (simp add: quit_calls_def quit_of_def)

lemma xor_slot: "(of_nat (k mod 2) :: u32) XOR 1 = of_nat (Suc k mod 2)"
proof (cases "k mod 2 = 0")
  case True
  then have "Suc k mod 2 = 1" by presburger
  then show ?thesis using True by simp
next
  case False
  then have "k mod 2 = 1" "Suc k mod 2 = 0" by presburger+
  then show ?thesis by simp
qed

lemma handshakes_app: "handshakes (xs @ ys) = handshakes xs @ handshakes ys"
  by (simp add: handshakes_def)

lemma write_buffer_handshake:
  "target_write_buffer env a p w = (r, w') \<Longrightarrow>
     handshakes (trace w') = handshakes (trace w) @ handshake_of (Target_write_buffer a p)"
  by (auto simp: shim_defs handshakes_def)

lemma wait_handshake:
  "cc26xx_wait_algo_done h env bank a w = Some (rv, w') \<Longrightarrow>
     handshakes (trace w') = handshakes (trace w) @ [Wait_done a]"
  using wait_algo_done_proj[OF silent_handshake_of(1), of h env bank a w rv w']
  by (simp add: handshakes_def)

lemma init_handshake:
  "cc26xx_init h env w bank = Returns (rv, w', bank') \<Longrightarrow> handshakes (trace w') = handshakes (trace w)"
  using init_proj[OF silent_handshake_of(2)] by (simp add: handshakes_def)

lemma quit_handshake:
  "handshakes (trace (fst (snd (cc26xx_quit env w bank)))) = handshakes (trace w)"
  by (simp add: quit_eq handshakes_def)

lemma erase_loop_handshake:
  "erase_loop h env bank last_s i (of_nat (k mod 2)) w = Some (ERROR_OK, idx, w') \<Longrightarrow>
     handshakes (trace w') = handshakes (trace w) @
       concat (map (erase_round (driver_priv bank)) [k..<k + nat (last_s + 1 - i)]) \<and>
     idx = of_nat ((k + nat (last_s + 1 - i)) mod 2)"
proof (induction "nat (last_s + 1 - i)" arbitrary: i k w)
  case 0
  then have "\<not> i \<le> last_s" "nat (last_s + 1 - i) = 0" by simp_all
  then show ?case using "0.prems" by (subst (asm) erase_loop.simps) simp
next
  case (Suc n)
  then have le: "i \<le> last_s" by simp
  let ?priv = "driver_priv bank"
  let ?index = "of_nat (k mod 2) :: u32"
  let ?p = "\<lparr>p_address = base bank + of_int i * sector_length ?priv,
             p_length = 4, p_command = CC26XX_CMD_ERASE_AND_PROGRAM h,
             p_status = CC26XX_BUFFER_FULL h,
             p_buffer = slot (algo_buffer ?priv) ?index\<rparr>"
  obtain r1 w1 where wb: "target_write_buffer env (slot (algo_params ?priv) ?index) (Params ?p) w = (r1, w1)"
    by (cases "target_write_buffer env (slot (algo_params ?priv) ?index) (Params ?p) w") auto
  note q1 = write_buffer_handshake[OF wb]
  have ok1: "r1 = ERROR_OK"
  proof (rule ccontr)
    assume "r1 \<noteq> ERROR_OK"
    then show False using Suc.prems le wb
      by (subst (asm) erase_loop.simps) (auto simp: Let_def)
  qed
  obtain r2 w2 where wt: "cc26xx_wait_algo_done h env bank (slot (algo_status ?priv) (?index XOR 1)) w1 = Some (r2, w2)"
    using Suc.prems le wb ok1
    by (subst (asm) erase_loop.simps)
       (cases "cc26xx_wait_algo_done h env bank (slot (algo_status ?priv) (?index XOR 1)) w1",
        auto simp: Let_def)
  note q2 = wait_handshake[OF wt]
  have ok2: "r2 = ERROR_OK"
  proof (rule ccontr)
    assume "r2 \<noteq> ERROR_OK"
    then show False using Suc.prems le wb ok1 wt
      by (subst (asm) erase_loop.simps) (auto simp: Let_def)
  qed
  have rec: "erase_loop h env bank last_s (i + 1) (of_nat (Suc k mod 2)) w2 = Some (ERROR_OK, idx, w')"
    using Suc.prems le wb ok1 wt ok2
    by (subst (asm) erase_loop.simps) (simp add: Let_def xor_slot)
  have n: "n = nat (last_s + 1 - (i + 1))" using Suc.hyps(2) by simp
  have n': "nat (last_s + 1 - i) = Suc n" using Suc.hyps(2) by simp
  from Suc.hyps(1)[OF n rec]
  have IH: "handshakes (trace w') = handshakes (trace w2) @
       concat (map (erase_round ?priv) [Suc k..<Suc k + n])"
    and ix: "idx = of_nat ((Suc k + n) mod 2)"
    using n by simp_all
  have rd: "handshakes (trace w2) = handshakes (trace w) @ erase_round ?priv k"
    using q1 q2 by (simp add: erase_round_def xor_slot)
  have up: "[k..<k + Suc n] = k # [Suc k..<Suc k + n]"
    by (simp add: upt_rec)
  show ?case unfolding n' up using IH ix rd by simp
qed

lemma chunks_0: "len \<noteq> 0 \<Longrightarrow> chunks 0 len = 0"
  by (simp add: chunks_def unat_gt_0)

lemma chunks_step:
  assumes c: "0 < count" and l: "len \<noteq> 0"
  shows "chunks count len = Suc (chunks (count - (if len < count then len else count)) len)"
proof (cases "len < count")
  case True
  then have u: "unat (count - len) = unat count - unat len" "unat len < unat count"
    by (simp_all add: unat_sub_if_size word_less_nat_alt)
  have l0: "0 < unat len" using l by (simp add: unat_gt_0)
  have "(unat count + unat len - 1) div unat len = ((unat count - 1) + unat len) div unat len"
    using u l0 by simp
  also have "\<dots> = Suc ((unat count - 1) div unat len)"
    using l0 div_add_self2[of "unat len" "unat count - 1"] by simp
  also have "(unat count - 1) = (unat count - unat len) + unat len - 1"
    using u by simp
  finally show ?thesis using True u by (simp add: chunks_def)
next
  case False
  then have le: "unat count \<le> unat len" by (simp add: word_less_nat_alt)
  have c0: "0 < unat count" using c by (simp add: unat_gt_0 word_neq_0_conv)
  have l0: "0 < unat len" using l by (simp add: unat_gt_0)
  have "unat len \<le> unat count + unat len - 1" "unat count + unat len - 1 < 2 * unat len"
    using le c0 l0 by linarith+
  then have "(unat count + unat len - 1) div unat len = 1"
    using l0 by (metis Suc_1 div_nat_eqI mult.commute mult.right_neutral mult_2 nat_mult_1_right)
  moreover have "(unat len - Suc 0) div unat len = 0" using l0 by simp
  ultimately show ?thesis using False by (simp add: chunks_def)
qed

lemma write_loop_handshake:
  "write_loop h env bank start count buffer address (of_nat (k mod 2)) w =
                Some (ERROR_OK, idx, w') \<Longrightarrow>
   sector_length (driver_priv bank) \<noteq> 0 \<Longrightarrow>
   handshakes (trace w') = handshakes (trace w) @
           concat (map (write_round (driver_priv bank))
             [k..<k + chunks count (sector_length (driver_priv bank))]) \<and>
         idx = of_nat ((k + chunks count (sector_length (driver_priv bank))) mod 2)"
proof (induction "unat count" arbitrary: count buffer address k w rule: less_induct)
  case less
  let ?priv = "driver_priv bank"
  let ?len = "sector_length ?priv"
  let ?index = "of_nat (k mod 2) :: u32"
  note len = less.prems(2)
  note body = less.prems(1)[unfolded write_loop.simps[of h env bank start count]]
  show ?case
  proof (cases "0 < count")
    case False
    then have "count = 0" using word_neq_0_conv[of count] by blast
    then show ?thesis using body chunks_0[OF len] by auto
  next
    case True
    let ?sz = "if ?len < count then ?len else count"
    obtain r1 w1 where wb1: "target_write_buffer env (slot (algo_buffer ?priv) ?index)
                  (Data (take (unat ?sz) buffer)) w = (r1, w1)"
      by (cases "target_write_buffer env (slot (algo_buffer ?priv) ?index)
                  (Data (take (unat ?sz) buffer)) w") auto
    note q1 = write_buffer_handshake[OF wb1]
    let ?p = "\<lparr>p_address = address, p_length = ?sz,
                              p_command = CC26XX_CMD_PROGRAM h,
                              p_status = CC26XX_BUFFER_FULL h,
                              p_buffer = slot (algo_buffer ?priv) ?index\<rparr>"
    obtain r2 w2 where wb2: "target_write_buffer env (slot (algo_params ?priv) ?index)
                            (Params ?p) w1 = (r2, w2)"
      by (cases "target_write_buffer env (slot (algo_params ?priv) ?index)
                            (Params ?p) w1") auto
    note q2 = write_buffer_handshake[OF wb2]
    have ok1: "r1 = ERROR_OK"
    proof (rule ccontr)
      assume "r1 \<noteq> ERROR_OK"
      then show False using body True wb1 by (auto simp: Let_def)
    qed
    have ok2: "r2 = ERROR_OK"
    proof (rule ccontr)
      assume "r2 \<noteq> ERROR_OK"
      then show False using body True wb1 wb2 ok1 by (auto simp: Let_def)
    qed
    obtain r3 w3 where wt: "cc26xx_wait_algo_done h env bank
          (slot (algo_status ?priv) (?index XOR 1)) w2 = Some (r3, w3)"
      using body True wb1 wb2 ok1 ok2
      by (cases "cc26xx_wait_algo_done h env bank (slot (algo_status ?priv) (?index XOR 1)) w2")
         (auto simp: Let_def)
    note q3 = wait_handshake[OF wt]
    have ok3: "r3 = ERROR_OK"
    proof (rule ccontr)
      assume "r3 \<noteq> ERROR_OK"
      then show False using body True wb1 wb2 ok1 ok2 wt by (auto simp: Let_def)
    qed
    let ?w4 = "log_event Timeval_ms w3"
    let ?w5 = "if 500 < r_ms (env (trace ?w4)) - start then keep_alive ?w4 else ?w4"
    have ix': "?index XOR 1 = of_nat (Suc k mod 2)" by (rule xor_slot)
    have rec: "write_loop h env bank start (count - ?sz) (drop (unat ?sz) buffer) (address + ?sz)
                (of_nat (Suc k mod 2)) ?w5 = Some (ERROR_OK, idx, w')"
      using body True wb1 wb2 ok1 ok2 wt ok3 unfolding ix'[symmetric]
      by (simp add: Let_def timeval_ms_def)
    have szpos: "0 < unat ?sz" using True len word_neq_0_conv[of count] by (auto simp: unat_gt_0)
    have szle: "?sz \<le> count" by auto
    have dec: "unat (count - ?sz) < unat count"
      using szpos szle by (simp add: unat_sub word_le_nat_alt)
    from less.hyps[OF dec rec len]
    have IH': "handshakes (trace w') = handshakes (trace ?w5) @
       concat (map (write_round ?priv) [Suc k..<Suc k + chunks (count - ?sz) ?len])"
      and ixr: "idx = of_nat ((Suc k + chunks (count - ?sz) ?len) mod 2)"
      by blast+
    have h5: "handshakes (trace ?w5) = handshakes (trace w3)"
      by (simp add: shim_defs handshakes_def)
    have rd: "handshakes (trace w3) = handshakes (trace w) @ write_round ?priv k"
      using q1 q2 q3 by (simp add: write_round_def ix' ok1 ok2 ok3)
    have cs: "chunks count ?len = Suc (chunks (count - ?sz) ?len)"
      using chunks_step[OF True len] .
    have up: "[k..<k + Suc n] = k # [Suc k..<Suc k + n]" for n
      by (simp add: upt_rec)
    show ?thesis unfolding cs up using IH' ixr h5 rd by simp
  qed
qed

lemma write_loop_zero_length:
  assumes r: "write_loop h env bank start count buffer address index w = Some y"
  shows "sector_length (driver_priv bank) = 0 \<and> 0 < count \<longrightarrow> fst y \<noteq> ERROR_OK"
proof (rule write_loop.raw_induct
    [where P = "\<lambda>h env bank start count buffer address index w y.
       sector_length (driver_priv bank) = 0 \<and> 0 < count \<longrightarrow> fst y \<noteq> ERROR_OK", OF _ r])
  fix loop :: "cc26xx_h \<Rightarrow> env \<Rightarrow> flash_bank \<Rightarrow> int \<Rightarrow> u32 \<Rightarrow> u8 list \<Rightarrow> u32 \<Rightarrow> u32 \<Rightarrow> world \<Rightarrow>
     (retval \<times> u32 \<times> world) option"
  fix h env bank start count buffer address index w y
  assume IH: "\<And>h env bank start count buffer address index w y.
      loop h env bank start count buffer address index w = Some y \<Longrightarrow>
      sector_length (driver_priv bank) = 0 \<and> 0 < count \<longrightarrow> fst y \<noteq> ERROR_OK"
    and body: "(if 0 < count
      then let priv = driver_priv bank;
               sz = if sector_length priv < count then sector_length priv else count
           in case target_write_buffer env (slot (algo_buffer priv) index)
                    (Data (take (unat sz) buffer)) w of
              (retval, w1) \<Rightarrow>
                if ERROR_OK \<noteq> retval
                then Some (retval, index,
                       LOG_ERROR ''Unable to write data to target memory'' w1)
                else let p = \<lparr>p_address = address, p_length = sz,
                                p_command = CC26XX_CMD_PROGRAM h,
                                p_status = CC26XX_BUFFER_FULL h,
                                p_buffer = slot (algo_buffer priv) index\<rparr>
                     in case target_write_buffer env (slot (algo_params priv) index)
                              (Params p) w1 of
                        (retval, w2) \<Rightarrow>
                          if ERROR_OK \<noteq> retval then Some (retval, index, w2)
                          else case cc26xx_wait_algo_done h env bank
                                      (slot (algo_status priv) (index XOR 1)) w2 of
                               None \<Rightarrow> None
                               | Some (retval, w3) \<Rightarrow>
                                   if ERROR_OK \<noteq> retval
                                   then Some (retval, index XOR 1, w3)
                                   else case timeval_ms env w3 of
                                        (now, w4) \<Rightarrow>
                                          let elapsed_ms = now - start;
                                              w5 = if 500 < elapsed_ms then keep_alive w4 else w4
                                          in loop h env bank start (count - sz)
                                               (drop (unat sz) buffer) (address + sz)
                                               (index XOR 1) w5
      else Some (ERROR_OK, index, w)) = Some y"
  show "sector_length (driver_priv bank) = 0 \<and> 0 < count \<longrightarrow> fst y \<noteq> ERROR_OK"
  proof (intro impI, elim conjE)
    assume z: "sector_length (driver_priv bank) = 0" and c: "0 < count"
    let ?priv = "driver_priv bank"
    obtain r1 w1 where wb1: "target_write_buffer env (slot (algo_buffer ?priv) index)
                    (Data (take 0 buffer)) w = (r1, w1)"
      by (cases "target_write_buffer env (slot (algo_buffer ?priv) index)
                    (Data (take 0 buffer)) w") auto
    let ?p = "\<lparr>p_address = address, p_length = 0,
                                p_command = CC26XX_CMD_PROGRAM h,
                                p_status = CC26XX_BUFFER_FULL h,
                                p_buffer = slot (algo_buffer ?priv) index\<rparr>"
    obtain r2 w2 where wb2: "target_write_buffer env (slot (algo_params ?priv) index)
                              (Params ?p) w1 = (r2, w2)"
      by (cases "target_write_buffer env (slot (algo_params ?priv) index)
                              (Params ?p) w1") auto
    show "fst y \<noteq> ERROR_OK"
    proof (cases "ERROR_OK \<noteq> r1")
      case True
      then show ?thesis using body c z wb1 by (auto simp: Let_def)
    next
      case k1: False
      show ?thesis
      proof (cases "ERROR_OK \<noteq> r2")
        case True
        then show ?thesis using body c z wb1 wb2 k1 by (auto simp: Let_def)
      next
        case k2: False
        obtain r3 w3 where wt: "cc26xx_wait_algo_done h env bank
              (slot (algo_status ?priv) (index XOR 1)) w2 = Some (r3, w3)"
          using body c z wb1 wb2 k1 k2
          by (cases "cc26xx_wait_algo_done h env bank (slot (algo_status ?priv) (index XOR 1)) w2")
             (auto simp: Let_def)
        show ?thesis
        proof (cases "ERROR_OK \<noteq> r3")
          case True
          then show ?thesis using body c z wb1 wb2 k1 k2 wt by (auto simp: Let_def)
        next
          case k3: False
          let ?w4 = "log_event Timeval_ms w3"
          let ?w5 = "if 500 < r_ms (env (trace ?w4)) - start then keep_alive ?w4 else ?w4"
          have rec: "loop h env bank start count (drop 0 buffer) address (index XOR 1) ?w5 = Some y"
            using body c z wb1 wb2 k1 k2 wt k3
            by (simp add: Let_def timeval_ms_def)
          from IH[OF rec] z c show ?thesis by simp
        qed
      qed
    qed
  qed
qed

lemma erase_range_written:
  assumes ret: "cc26xx_erase_range h env w bank first last_s = Some (Returns (ERROR_OK, w', bank'))"
    and init: "cc26xx_init h env w bank = Returns (ERROR_OK, w1, b1)"
  shows "erase_buffers_written env w1 b1 first last_s"
proof -
  let ?b0 = "slot (algo_buffer (driver_priv b1)) 0"
  let ?b1 = "slot (algo_buffer (driver_priv b1)) 1"
  obtain r2 w2 where p1: "target_write_buffer env ?b0 (Word32 0xffffffff) w1 = (r2, w2)"
    by (cases "target_write_buffer env ?b0 (Word32 0xffffffff) w1") auto
  have k2: "r2 = ERROR_OK"
  proof (rule ccontr)
    assume "r2 \<noteq> ERROR_OK"
    then show False using ret unfolding cc26xx_erase_range_def init by (simp add: Let_def p1)
  qed
  obtain r3 w3 where p2: "target_write_buffer env ?b1 (Word32 0xffffffff) w2 = (r3, w3)"
    by (cases "target_write_buffer env ?b1 (Word32 0xffffffff) w2") auto
  have k3: "last_s - first > 0 \<Longrightarrow> r3 = ERROR_OK"
  proof (rule ccontr)
    assume "last_s - first > 0" "r3 \<noteq> ERROR_OK"
    then show False using ret unfolding cc26xx_erase_range_def init by (simp add: Let_def p1 k2 p2)
  qed
  show ?thesis unfolding erase_buffers_written_def using p1 k2 p2 k3 by simp
qed

lemma mark_sectors_priv: "mark_sectors v lo hi b = Returns b' \<Longrightarrow> driver_priv b' = driver_priv b"
  by (auto simp: mark_sectors_def split: option.splits outcome.splits)

lemma round_with_area [simp]:
  "erase_round (driver_priv (with_area a b)) = erase_round (driver_priv b)"
  "write_round (driver_priv (with_area a b)) = write_round (driver_priv b)"
  "algo_status (driver_priv (with_area a b)) = algo_status (driver_priv b)"
  "algo_buffer (driver_priv (with_area a b)) = algo_buffer (driver_priv b)"
  "sector_length (driver_priv (with_area a b)) = sector_length (driver_priv b)"
  by (simp_all add: erase_round_def write_round_def with_area_def fun_eq_iff)

lemma last_slot: "0 < n \<Longrightarrow> (of_nat (n mod 2) :: u32) XOR 1 = of_nat ((n - 1) mod 2)"
proof -
  assume "0 < n"
  then obtain m where n: "n = Suc m" by (cases n) auto
  have "(of_nat (Suc m mod 2) :: u32) XOR 1 = of_nat (Suc (Suc m) mod 2)" by (rule xor_slot)
  also have "Suc (Suc m) mod 2 = m mod 2" by simp
  finally show ?thesis using n by simp
qed

lemma erase_range_handshake:
  assumes ret: "cc26xx_erase_range h env w bank first last_s = Some (Returns (ERROR_OK, w', bank'))"
    and le: "first \<le> last_s"
  shows "handshakes (trace w') = handshakes (trace w) @
       Post_data (slot (algo_buffer (driver_priv bank')) 0) #
       (if last_s - first > 0 then [Post_data (slot (algo_buffer (driver_priv bank')) 1)] else []) @
       concat (map (erase_round (driver_priv bank')) [0..<nat (last_s - first + 1)]) @
       [Wait_done (slot (algo_status (driver_priv bank'))
                     (of_nat ((nat (last_s - first + 1) - 1) mod 2)))]"
proof -
  from erase_range_cases[OF ret] obtain w1 b1 where
    init: "cc26xx_init h env w bank = Returns (ERROR_OK, w1, b1)" and
    mk: "mark_sectors 1 first last_s (with_area None b1) = Returns bank'"
    by auto
  have priv: "driver_priv bank' = driver_priv (with_area None b1)"
    using mark_sectors_priv[OF mk] .
  from erase_range_steps[OF ret init erase_range_written[OF ret init]]
  obtain w3 rl idx w4 w5 where
    t3: "trace w3 = trace w1 @
       [Target_write_buffer (slot (algo_buffer (driver_priv b1)) 0) (Word32 0xffffffff)] @
       (if last_s - first > 0
        then [Target_write_buffer (slot (algo_buffer (driver_priv b1)) 1) (Word32 0xffffffff)]
        else [])" and
    lp: "erase_loop h env b1 last_s first 0 w3 = Some (rl, idx, w4)" and
    wt: "(if ERROR_OK = rl
      then cc26xx_wait_algo_done h env b1 (slot (algo_status (driver_priv b1)) (idx XOR 1)) w4
      else Some (rl, w4)) = Some (ERROR_OK, w5)" and
    q: "w' = fst (snd (cc26xx_quit env w5 b1))"
    by blast
  have rl: "rl = ERROR_OK" using wt by (cases "ERROR_OK = rl") auto
  let ?N = "nat (last_s - first + 1)"
  have N: "nat (last_s + 1 - first) = ?N" "0 < ?N" using le by simp_all
  from lp rl have "erase_loop h env b1 last_s first (of_nat (0 mod 2)) w3 = Some (ERROR_OK, idx, w4)"
    by simp
  from erase_loop_handshake[OF this]
  have h4: "handshakes (trace w4) = handshakes (trace w3) @
              concat (map (erase_round (driver_priv b1)) [0..<?N])"
    and ix: "idx = of_nat (?N mod 2)"
    using N by simp_all
  have h3: "handshakes (trace w3) = handshakes (trace w1) @
       Post_data (slot (algo_buffer (driver_priv b1)) 0) #
       (if last_s - first > 0 then [Post_data (slot (algo_buffer (driver_priv b1)) 1)] else [])"
    unfolding t3 by (simp add: handshakes_def)
  from wt rl have "cc26xx_wait_algo_done h env b1
       (slot (algo_status (driver_priv b1)) (idx XOR 1)) w4 = Some (ERROR_OK, w5)" by simp
  from wait_handshake[OF this]
  have h5: "handshakes (trace w5) = handshakes (trace w4) @
       [Wait_done (slot (algo_status (driver_priv b1)) (of_nat ((?N - 1) mod 2)))]"
    unfolding ix last_slot[OF N(2)] .
  have "handshakes (trace w') = handshakes (trace w5)"
    unfolding q by (rule quit_handshake)
  then show ?thesis
    unfolding priv using h5 h4 h3 init_handshake[OF init] by simp
qed

lemma chunks_pos: "0 < count \<Longrightarrow> len \<noteq> 0 \<Longrightarrow> 0 < chunks count len"
  using chunks_step[of count len] by simp

lemma write_handshake:
  assumes ret: "cc26xx_write h env w bank buffer offs count = Some (Returns (ERROR_OK, w', bank'))"
    and c: "0 < count"
  shows "sector_length (driver_priv bank') \<noteq> 0"
    and "handshakes (trace w') = handshakes (trace w) @
       concat (map (write_round (driver_priv bank'))
         [0..<chunks count (sector_length (driver_priv bank'))]) @
       [Wait_done (slot (algo_status (driver_priv bank'))
          (of_nat ((chunks count (sector_length (driver_priv bank')) - 1) mod 2)))]"
proof -
  from write_cases[OF ret] obtain w1 b1 where
    halted: "state w = TARGET_HALTED" and
    init: "cc26xx_init h env w bank = Returns (ERROR_OK, w1, b1)" and
    bk: "(case sectors b1 of
            None \<Rightarrow> bank' = with_area None b1
          | Some secs \<Rightarrow>
              (\<exists>secs'. mark_not_erased (sector_length (driver_priv b1))
                          (end_address offs count) offs secs = Some (Returns secs') \<and>
                 bank' = (with_area None b1)\<lparr>sectors := Some secs'\<rparr>))"
    by auto
  have priv: "driver_priv bank' = driver_priv (with_area None b1)"
    using bk by (auto split: option.splits)
  from write_steps[OF ret halted init] obtain rl idx w3 w4 where
    lp: "write_loop h env b1 (r_ms (env (trace w1 @ [Timeval_ms]))) count buffer (base b1 + offs) 0
       (w1\<lparr>trace := trace w1 @ [Timeval_ms]\<rparr>) = Some (rl, idx, w3)" and
    wt: "(if ERROR_OK = rl
      then cc26xx_wait_algo_done h env b1 (slot (algo_status (driver_priv b1)) (idx XOR 1)) w3
      else Some (rl, w3)) = Some (ERROR_OK, w4)" and
    q: "w' = fst (snd (cc26xx_quit env w4 b1))"
    by blast
  have rl: "rl = ERROR_OK" using wt by (cases "ERROR_OK = rl") auto
  from write_loop_zero_length[OF lp] rl c
  have len: "sector_length (driver_priv b1) \<noteq> 0" by auto
  then show "sector_length (driver_priv bank') \<noteq> 0" unfolding priv by simp
  let ?N = "chunks count (sector_length (driver_priv b1))"
  have N: "0 < ?N" using chunks_pos[OF c len] .
  from lp rl have "write_loop h env b1 (r_ms (env (trace w1 @ [Timeval_ms]))) count buffer
       (base b1 + offs) (of_nat (0 mod 2))
       (w1\<lparr>trace := trace w1 @ [Timeval_ms]\<rparr>) = Some (ERROR_OK, idx, w3)"
    by simp
  from write_loop_handshake[OF this len]
  have h3: "handshakes (trace w3) = handshakes (trace w1) @
              concat (map (write_round (driver_priv b1)) [0..<?N])"
    and ix: "idx = of_nat (?N mod 2)"
    by (simp_all add: handshakes_def)
  from wt rl have "cc26xx_wait_algo_done h env b1
       (slot (algo_status (driver_priv b1)) (idx XOR 1)) w3 = Some (ERROR_OK, w4)" by simp
  from wait_handshake[OF this]
  have h4: "handshakes (trace w4) = handshakes (trace w3) @
       [Wait_done (slot (algo_status (driver_priv b1)) (of_nat ((?N - 1) mod 2)))]"
    unfolding ix last_slot[OF N] .
  have "handshakes (trace w') = handshakes (trace w4)"
    unfolding q by (rule quit_handshake)
  then show "handshakes (trace w') = handshakes (trace w) @
       concat (map (write_round (driver_priv bank'))
         [0..<chunks count (sector_length (driver_priv bank'))]) @
       [Wait_done (slot (algo_status (driver_priv bank'))
          (of_nat ((chunks count (sector_length (driver_priv bank')) - 1) mod 2)))]"
    unfolding priv using h4 h3 init_handshake[OF init] by simp
qed

lemma erase_range_priv:
  assumes "cc26xx_erase_range h env w bank first last_s = Some (Returns (ERROR_OK, w', bank'))"
    and "cc26xx_init h env w bank = Returns (ERROR_OK, w1, b1)"
  shows "driver_priv bank' = driver_priv (with_area None b1)"
  using erase_range_cases[OF assms(1)] assms(2) by (auto dest: mark_sectors_priv)

lemma write_priv:
  assumes "cc26xx_write h env w bank buffer offs count = Some (Returns (ERROR_OK, w', bank'))"
    and "cc26xx_init h env w bank = Returns (ERROR_OK, w1, b1)"
  shows "driver_priv bank' = driver_priv (with_area None b1)"
  using write_cases[OF assms(1)] assms(2) by (auto split: option.splits)

lemma erase_1_3_run:
  "returned (cc26xx_erase h0 env_ok w0 bank0 1 3) = Some (ERROR_OK, [- 1, 1, 1, 1])"
  by (simp add: run_defs shim_defs device_defs)

lemma erase_1_3_trace:
  "map_option handshakes (returned_trace (cc26xx_erase h0 env_ok w0 bank0 1 3)) =
     Some [Post_data 0x20001c00, Post_data 0x20002c00,
           Post_params 0x20001bd8 0x20001c00, Wait_done 0x20001bf8,
           Post_params 0x20001bec 0x20002c00, Wait_done 0x20001be4,
           Post_params 0x20001bd8 0x20001c00, Wait_done 0x20001bf8,
           Wait_done 0x20001be4]"
  by (simp add: run_defs shim_defs device_defs handshakes_def)

lemma write_two_run:
  "returned (cc26xx_write h0 env_ok w0 bank0 (replicate 4097 0) 0 0x1001) =
     Some (ERROR_OK, [0, 0, - 1, - 1])"
  by (simp add: run_defs shim_defs device_defs word_le_nat_alt word_less_nat_alt)

lemma chunks_run: "chunks 0x1001 0x1000 = 2"
  by (simp add: chunks_def)

text \<open>
  C2, as amended. A successful programming call of \<open>count > 0\<close> bytes makes
  \<open>N = chunks count sector_length\<close> rounds, \<open>N \<ge> 1\<close>: round \<open>i\<close> posts its data and
  then its parameter block to slot \<open>i mod 2\<close> and then waits on the other slot; after
  the last round there is exactly one more wait, on the slot of the last round. A
  successful sector erase of \<open>first..last_s\<close>, \<open>first \<le> last_s\<close>, that is not
  handed to mass erase makes \<open>N = last_s - first + 1\<close> rounds with the same slots and
  waits, but a round posts the parameter block only: the all-ones word is posted once,
  before the first round, to the data buffer of slot 0, and to that of slot 1 when there
  is more than one sector. The parameter block of round \<open>i\<close> names the data buffer of
  slot \<open>i mod 2\<close>.
\<close>

theorem ping_pong_schedule:
  "(cc26xx_erase h env w bank first last_s = Some (Returns (ERROR_OK, w', bank')) \<and>
    \<not> (bank_number bank = 0 \<and> first = 0 \<and> last_s = num_sectors bank - 1) \<and>
    first \<le> last_s \<longrightarrow>
      handshakes (trace w') = handshakes (trace w) @
        Post_data (slot (algo_buffer (driver_priv bank')) 0) #
        (if last_s - first > 0 then [Post_data (slot (algo_buffer (driver_priv bank')) 1)] else []) @
        concat (map (erase_round (driver_priv bank')) [0..<nat (last_s - first + 1)]) @
        [Wait_done (slot (algo_status (driver_priv bank'))
                      (of_nat ((nat (last_s - first + 1) - 1) mod 2)))]) \<and>
   (cc26xx_write h env w bank buffer offs count = Some (Returns (ERROR_OK, w', bank')) \<and>
    0 < count \<longrightarrow>
      1 \<le> chunks count (sector_length (driver_priv bank')) \<and>
      handshakes (trace w') = handshakes (trace w) @
        concat (map (write_round (driver_priv bank'))
          [0..<chunks count (sector_length (driver_priv bank'))]) @
        [Wait_done (slot (algo_status (driver_priv bank'))
           (of_nat ((chunks count (sector_length (driver_priv bank')) - 1) mod 2)))])"
proof (intro conjI impI)
  assume a: "cc26xx_erase h env w bank first last_s = Some (Returns (ERROR_OK, w', bank')) \<and>
    \<not> (bank_number bank = 0 \<and> first = 0 \<and> last_s = num_sectors bank - 1) \<and>
    first \<le> last_s"
  then have "cc26xx_erase_range h env w bank first last_s = Some (Returns (ERROR_OK, w', bank'))"
    using erase_is_erase_range by blast
  from erase_range_handshake[OF this] a
  show "handshakes (trace w') = handshakes (trace w) @
        Post_data (slot (algo_buffer (driver_priv bank')) 0) #
        (if last_s - first > 0 then [Post_data (slot (algo_buffer (driver_priv bank')) 1)] else []) @
        concat (map (erase_round (driver_priv bank')) [0..<nat (last_s - first + 1)]) @
        [Wait_done (slot (algo_status (driver_priv bank'))
                      (of_nat ((nat (last_s - first + 1) - 1) mod 2)))]"
    by blast
next
  assume a: "cc26xx_write h env w bank buffer offs count = Some (Returns (ERROR_OK, w', bank')) \<and>
    0 < count"
  then have r: "cc26xx_write h env w bank buffer offs count = Some (Returns (ERROR_OK, w', bank'))"
    and c: "0 < count" by simp_all
  from chunks_pos[OF c write_handshake(1)[OF r c]]
  show "1 \<le> chunks count (sector_length (driver_priv bank'))" by simp
  from write_handshake(2)[OF r c]
  show "handshakes (trace w') = handshakes (trace w) @
        concat (map (write_round (driver_priv bank'))
          [0..<chunks count (sector_length (driver_priv bank'))]) @
        [Wait_done (slot (algo_status (driver_priv bank'))
           (of_nat ((chunks count (sector_length (driver_priv bank')) - 1) mod 2)))]" .
qed

theorem ping_pong_schedule_witness:
  "(\<exists>w' bank'. cc26xx_erase h0 env_ok w0 bank0 1 3 = Some (Returns (ERROR_OK, w', bank')) \<and>
      handshakes (trace w') =
        [Post_data 0x20001c00, Post_data 0x20002c00,
         Post_params 0x20001bd8 0x20001c00, Wait_done 0x20001bf8,
         Post_params 0x20001bec 0x20002c00, Wait_done 0x20001be4,
         Post_params 0x20001bd8 0x20001c00, Wait_done 0x20001bf8,
         Wait_done 0x20001be4]) \<and>
   (\<exists>w' bank'. cc26xx_write h0 env_ok w0 bank0 (replicate 4097 0) 0 0x1001 =
        Some (Returns (ERROR_OK, w', bank')) \<and>
      handshakes (trace w') =
        [Post_data 0x20001c00, Post_params 0x20001bd8 0x20001c00, Wait_done 0x20001bf8,
         Post_data 0x20002c00, Post_params 0x20001bec 0x20002c00, Wait_done 0x20001be4,
         Wait_done 0x20001bf8])"
proof -
  have t0: "handshakes (trace w0) = []" by (simp add: w0_def handshakes_def)
  from returned_Some[OF erase_1_3_run] obtain we be where
    e: "cc26xx_erase h0 env_ok w0 bank0 1 3 = Some (Returns (ERROR_OK, we, be))" by blast
  then have "cc26xx_erase_range h0 env_ok w0 bank0 1 3 = Some (Returns (ERROR_OK, we, be))"
    by (rule erase_is_erase_range) simp
  note pe = erase_range_priv[OF this init_run]
  from returned_Some[OF write_two_run] obtain ww bw where
    w: "cc26xx_write h0 env_ok w0 bank0 (replicate 4097 0) 0 0x1001 =
          Some (Returns (ERROR_OK, ww, bw))" by blast
  note pw = write_priv[OF w init_run]
  have up: "[0..<3] = [0, 1, 2]" "[0..<2] = [0, 1]" by (simp_all add: upt_rec)
  have "handshakes (trace we) =
        [Post_data 0x20001c00, Post_data 0x20002c00,
         Post_params 0x20001bd8 0x20001c00, Wait_done 0x20001bf8,
         Post_params 0x20001bec 0x20002c00, Wait_done 0x20001be4,
         Post_params 0x20001bd8 0x20001c00, Wait_done 0x20001bf8,
         Wait_done 0x20001be4]"
    using ping_pong_schedule[of h0 env_ok w0 bank0 1 3 we be] e pe t0
    by (simp add: erase_round_def device_defs with_area_def slot_def up)
  moreover have "handshakes (trace ww) =
        [Post_data 0x20001c00, Post_params 0x20001bd8 0x20001c00, Wait_done 0x20001bf8,
         Post_data 0x20002c00, Post_params 0x20001bec 0x20002c00, Wait_done 0x20001be4,
         Wait_done 0x20001bf8]"
    using ping_pong_schedule[of h0 env_ok w0 bank0 _ _ ww bw "replicate 4097 0" 0 "0x1001"] w pw t0
    by (simp add: write_round_def device_defs with_area_def slot_def up chunks_run)
  ultimately show ?thesis using e w by blast
qed

theorem erase_rounds_post_no_data:
  "map_option handshakes (returned_trace (cc26xx_erase h0 env_ok w0 bank0 1 3)) =
     Some [Post_data 0x20001c00, Post_data 0x20002c00,
           Post_params 0x20001bd8 0x20001c00, Wait_done 0x20001bf8,
           Post_params 0x20001bec 0x20002c00, Wait_done 0x20001be4,
           Post_params 0x20001bd8 0x20001c00, Wait_done 0x20001bf8,
           Wait_done 0x20001be4] \<and>
   map_option handshakes (returned_trace (cc26xx_erase h0 env_ok w0 bank0 1 3)) \<noteq>
     Some (concat (map (write_round (driver_priv bank0)) [0, 1, 2]) @ [Wait_done 0x20001be4])"
  unfolding erase_1_3_trace by (simp add: write_round_def)

end
